theory Spec2Isabelle
  imports Complex_Main "HOL-Library.Word"
begin

section \<open>Data model of the vision node\<close>

text \<open>
  The controller of \<^verbatim>\<open>src/vision_node.py\<close> is the body of the \<^verbatim>\<open>while\<close> loop of
  \<^verbatim>\<open>VisionNode.run\<close>. Its state is the attributes of \<^verbatim>\<open>self\<close> that the loop reads and
  writes; its input, for each iteration, is what the lock system returned for the frame
  together with the readings of \<^verbatim>\<open>time.time()\<close> that the iteration takes.

  Pixel coordinates are integers. The normalised centre and the clock readings, Python
  floats, are modelled as exact reals: the deadband constants are \<open>4/10\<close> and
  \<open>6/10\<close>, the gate constants \<open>1/10\<close> and \<open>5\<close>.
\<close>

text \<open>The four string literals that the loop assigns to \<^verbatim>\<open>status\<close> and \<^verbatim>\<open>self.last_status\<close>.\<close>

datatype movement_status = NO_FACE | MOVE_LEFT | MOVE_RIGHT | CENTERED

fun status_str :: "movement_status \<Rightarrow> string" where
  "status_str NO_FACE = ''NO_FACE''"
| "status_str MOVE_LEFT = ''MOVE_LEFT''"
| "status_str MOVE_RIGHT = ''MOVE_RIGHT''"
| "status_str CENTERED = ''CENTERED''"

text \<open>
  Modelled from the spec: the enumeration \<^verbatim>\<open>LockState\<close> is imported from
  \<^verbatim>\<open>src.face_locking\<close>, which is not among the sources; the specification gives it the two
  members SEARCHING and LOCKED.
\<close>

datatype LockState = SEARCHING | LOCKED

text \<open>
  Modelled from the spec: the class of the face object that the lock system returns is
  declared in \<^verbatim>\<open>src.haar_5pt\<close>, which is not among the sources. The loop reads its four
  box coordinates; the specification makes them pixel coordinates of the frame, so they
  are integers here, and \<^verbatim>\<open>int(f.x1)\<close> of line 153 is \<open>x1 f\<close> itself.
\<close>

record face =
  x1 :: int
  y1 :: int
  x2 :: int
  y2 :: int

text \<open>
  The crop \<^verbatim>\<open>frame[y1:y2, x1:x2]\<close>, represented by the slice bounds the loop computes
  (the pixels themselves are opaque here).
\<close>

record crop =
  crop_x1 :: int
  crop_y1 :: int
  crop_x2 :: int
  crop_y2 :: int

text \<open>
  One iteration's input: the shape of the frame, the result of
  \<^verbatim>\<open>self.system.process_frame\<close>, and the three clock readings of the loop body
  (line 188, line 195 and line 197 of the source, in this order).
\<close>

record frame_in =
  frame_H :: nat
  frame_W :: nat
  target_face :: "face option"
  lock_state :: LockState
  current_time :: real
  heartbeat_check_time :: real
  heartbeat_set_time :: real

text \<open>The attributes of \<^verbatim>\<open>self\<close> used by the loop, as \<^verbatim>\<open>__init__\<close> declares them.\<close>

record vision_node =
  target_name :: string
  last_heartbeat :: real
  last_publish_time :: real
  snapshot_sent :: bool
  last_status :: movement_status

definition init_node :: "string \<Rightarrow> vision_node" where
  "init_node name =
     \<lparr>target_name = name, last_heartbeat = 0, last_publish_time = 0,
      snapshot_sent = False, last_status = CENTERED\<rparr>"

text \<open>
  The parameters of one call of \<^verbatim>\<open>publish_movement\<close>, as the call binds them
  (\<^verbatim>\<open>confidence\<close> keeps its default \<open>1.0\<close> in the call of the loop).
\<close>

record movement_call =
  call_status :: movement_status
  call_confidence :: real
  call_target :: "string option"
  call_locked :: bool
  call_face_image :: "crop option"

text \<open>
  What one iteration did: the status it computed, the crop it took, the call of
  \<^verbatim>\<open>publish_movement\<close> it made (if the rate limit admitted one) and whether it called
  \<^verbatim>\<open>publish_heartbeat\<close>.
\<close>

record frame_out =
  status :: movement_status
  face_crop :: "crop option"
  movement :: "movement_call option"
  heartbeat :: bool

text \<open>
  The exceptions that end the program: the division by a zero width, \<^verbatim>\<open>cv2.error\<close> raised
  by \<^verbatim>\<open>cv2.imencode\<close> on an empty image, and the \<^verbatim>\<open>RuntimeError\<close> of the camera
  acquisition with the list of indices of its message.
\<close>

datatype py_error = ZeroDivisionError | Cv2Error | RuntimeError "int list"

section \<open>The loop body of \<^verbatim>\<open>VisionNode.run\<close>\<close>

text \<open>Lines 153 to 160: the padded box, clamped to the frame.\<close>

definition take_crop :: "nat \<Rightarrow> nat \<Rightarrow> face \<Rightarrow> crop" where
  "take_crop H W f =
     (let pad = 20 in
      \<lparr>crop_x1 = max 0 (x1 f - pad),
       crop_y1 = max 0 (y1 f - pad),
       crop_x2 = min (int W) (x2 f + pad),
       crop_y2 = min (int H) (y2 f + pad)\<rparr>)"

text \<open>
  The number of indices that the slice \<^verbatim>\<open>start:stop\<close> selects on an axis of length
  \<open>n\<close>, as Python and numpy count it: a negative bound counts from the end, and both
  bounds are clamped to the axis.
\<close>

definition slice_length :: "nat \<Rightarrow> int \<Rightarrow> int \<Rightarrow> nat" where
  "slice_length n start stop =
     (let lo = (if start < 0 then max 0 (start + int n) else min start (int n));
          hi = (if stop < 0 then max 0 (stop + int n) else min stop (int n))
      in nat (hi - lo))"

text \<open>
  Line 104, inside \<^verbatim>\<open>publish_movement\<close>: \<^verbatim>\<open>cv2.imencode\<close> is called when
  \<^verbatim>\<open>face_image\<close> is not \<^verbatim>\<open>None\<close>, and raises when the image is empty, that is when the slice
  \<^verbatim>\<open>frame[y1:y2, x1:x2]\<close> of the frame of height \<open>H\<close> and width \<open>W\<close> has no row or no
  column.
\<close>

definition imencode_raises :: "nat \<Rightarrow> nat \<Rightarrow> crop option \<Rightarrow> bool" where
  "imencode_raises H W face_image =
     (case face_image of
        None \<Rightarrow> False
      | Some c \<Rightarrow>
          slice_length H (crop_y1 c) (crop_y2 c) = 0 \<or>
          slice_length W (crop_x1 c) (crop_x2 c) = 0)"

text \<open>
  A box that lies within a frame that has pixels: what the specification assumes of the
  target region.
\<close>

definition in_frame :: "nat \<Rightarrow> nat \<Rightarrow> face \<Rightarrow> bool" where
  "in_frame H W f =
     (0 < H \<and> 0 < W \<and> 0 \<le> x1 f \<and> x1 f \<le> x2 f \<and> x2 f \<le> int W \<and>
      0 \<le> y1 f \<and> y1 f \<le> y2 f \<and> y2 f \<le> int H)"

text \<open>
  Lines 165 to 175: the normalised centre and the deadband. On integer coordinates and a
  width that an image can have (OpenCV holds both in 32-bit integers) the doubles of the
  source order against \<open>0.4\<close> and \<open>0.6\<close> as the exact quotient does: the sum and its
  half are exact, the division is rounded once, and a quotient other than \<open>2/5\<close> or
  \<open>3/5\<close> is at least \<open>1 / (10 W)\<close> away from it, far more than the rounding.
\<close>

definition cx_norm :: "face \<Rightarrow> nat \<Rightarrow> real" where
  "cx_norm f W = (real_of_int (x1 f + x2 f) / 2) / real W"

definition movement_logic :: "real \<Rightarrow> movement_status" where
  "movement_logic c =
     (if c < 0.4 then MOVE_LEFT else if c > 0.6 then MOVE_RIGHT else CENTERED)"

text \<open>
  Lines 187 to 197 when no exception is raised: the rate limit of the movement message,
  then the heartbeat timer. The heartbeat test reads the clock again, and the stored time
  is a third reading.
\<close>

definition rate_limiting ::
  "vision_node \<Rightarrow> frame_in \<Rightarrow> movement_status \<Rightarrow> crop option \<Rightarrow> vision_node \<times> frame_out" where
  "rate_limiting self fr st fc =
     (let (self1, mv) =
            (if current_time fr - last_publish_time self \<ge> 0.1
             then (self\<lparr>last_publish_time := current_time fr\<rparr>,
                   Some \<lparr>call_status = st, call_confidence = 1.0,
                         call_target = Some (target_name self),
                         call_locked = (st \<noteq> NO_FACE), call_face_image = fc\<rparr>)
             else (self, None));
          (self2, hb) =
            (if heartbeat_check_time fr - last_heartbeat self1 > 5
             then (self1\<lparr>last_heartbeat := heartbeat_set_time fr\<rparr>, True)
             else (self1, False))
      in (self2, \<lparr>status = st, face_crop = fc, movement = mv, heartbeat = hb\<rparr>))"

text \<open>
  Lines 187 to 197 with the exception: when the rate limit admits the message and the
  call of \<^verbatim>\<open>publish_movement\<close> raises in \<^verbatim>\<open>cv2.imencode\<close>, the exception leaves
  \<^verbatim>\<open>run\<close> before \<open>last_publish_time\<close> is written and before the heartbeat.
\<close>

definition publish_gates ::
  "vision_node \<Rightarrow> frame_in \<Rightarrow> movement_status \<Rightarrow> crop option \<Rightarrow> py_error + vision_node \<times> frame_out" where
  "publish_gates self fr st fc =
     (if current_time fr - last_publish_time self \<ge> 0.1 \<and>
         imencode_raises (frame_H fr) (frame_W fr) fc
      then Inl Cv2Error
      else Inr (rate_limiting self fr st fc))"

text \<open>
  Lines 137 to 185, followed by the gates. The division \<^verbatim>\<open>cx / W\<close> raises on a frame of
  width zero; the snapshot flag has been written by then, but the exception ends the loop.
\<close>

definition run_step :: "vision_node \<Rightarrow> frame_in \<Rightarrow> py_error + vision_node \<times> frame_out" where
  "run_step self fr =
     (case lock_state fr of
        SEARCHING \<Rightarrow>
          publish_gates
            (if snapshot_sent self then self\<lparr>snapshot_sent := False\<rparr> else self)
            fr NO_FACE None
      | LOCKED \<Rightarrow>
          (case target_face fr of
             Some f \<Rightarrow>
               (let (self1, fc) =
                      (if \<not> snapshot_sent self
                       then (self\<lparr>snapshot_sent := True\<rparr>,
                             Some (take_crop (frame_H fr) (frame_W fr) f))
                       else (self, None))
                in if frame_W fr = 0 then Inl ZeroDivisionError
                   else (let st = movement_logic (cx_norm f (frame_W fr))
                         in publish_gates (self1\<lparr>last_status := st\<rparr>) fr st fc))
           | None \<Rightarrow>
               publish_gates self fr
                 (if last_status self = NO_FACE then CENTERED else last_status self)
                 None))"

text \<open>
  The loop over the frames that \<^verbatim>\<open>cap.read()\<close> delivers before it fails or the user
  quits: the outputs of the iterations that completed, and the final state or the
  exception that ended the loop.
\<close>

fun run :: "vision_node \<Rightarrow> frame_in list \<Rightarrow> frame_out list \<times> (py_error + vision_node)" where
  "run self [] = ([], Inr self)"
| "run self (fr # frs) =
     (case run_step self fr of
        Inl e \<Rightarrow> ([], Inl e)
      | Inr (self', out) \<Rightarrow> (case run self' frs of (outs, r) \<Rightarrow> (out # outs, r)))"

section \<open>Message codec\<close>

text \<open>
  A payload is the Python dictionary handed to \<^verbatim>\<open>json.dumps\<close>: its items in insertion
  order, with the values that occur in this program.
\<close>

type_synonym byte = "8 word"

datatype json = JString string | JNumber real | JBool bool | JNull

type_synonym payload = "(string \<times> json) list"

text \<open>\<^verbatim>\<open>base64.b64encode\<close>: the standard alphabet, three bytes to four characters, padded with \<open>=\<close>.\<close>

definition b64_alphabet :: string where
  "b64_alphabet = ''ABCDEFGHIJKLMNOPQRSTUVWXYZabcdefghijklmnopqrstuvwxyz0123456789+/''"

definition b64_char :: "nat \<Rightarrow> char" where
  "b64_char n = b64_alphabet ! n"

fun b64encode :: "byte list \<Rightarrow> string" where
  "b64encode [] = []"
| "b64encode [a] =
     [b64_char (unat a div 4), b64_char (unat a mod 4 * 16), CHR ''='', CHR ''='']"
| "b64encode [a, b] =
     [b64_char (unat a div 4), b64_char (unat a mod 4 * 16 + unat b div 16),
      b64_char (unat b mod 16 * 4), CHR ''='']"
| "b64encode (a # b # c # rest) =
     [b64_char (unat a div 4), b64_char (unat a mod 4 * 16 + unat b div 16),
      b64_char (unat b mod 16 * 4 + unat c div 64), b64_char (unat c mod 64)]
     @ b64encode rest"

text \<open>
  \<^verbatim>\<open>json.dumps\<close> with its defaults, on such a dictionary: items separated by a comma
  and a space, key and value by a colon and a space; strings between double quotes, with
  the escapes of \<^verbatim>\<open>ensure_ascii\<close> (a character is a code point below 256 here); \<open>true\<close>,
  \<open>false\<close>, \<open>null\<close>. The rendering of a float (Python's \<^verbatim>\<open>float.__repr__\<close>) is a
  parameter.
\<close>

definition dquote :: char where
  "dquote = CHR 0x22"

definition backslash :: char where
  "backslash = CHR 0x5C"

definition hex_digits :: string where
  "hex_digits = ''0123456789abcdef''"

definition escape_char :: "char \<Rightarrow> string" where
  "escape_char c =
     (if c = dquote then [backslash, dquote]
      else if c = backslash then [backslash, backslash]
      else if c = CHR 0x0A then [backslash, CHR ''n'']
      else if c = CHR 0x0D then [backslash, CHR ''r'']
      else if c = CHR 0x09 then [backslash, CHR ''t'']
      else if c = CHR 0x08 then [backslash, CHR ''b'']
      else if c = CHR 0x0C then [backslash, CHR ''f'']
      else if 32 \<le> (of_char c :: nat) \<and> (of_char c :: nat) \<le> 126 then [c]
      else [backslash, CHR ''u'', CHR ''0'', CHR ''0'',
            hex_digits ! (of_char c div 16), hex_digits ! (of_char c mod 16)])"

definition json_string :: "string \<Rightarrow> string" where
  "json_string s = dquote # concat (map escape_char s) @ [dquote]"

definition json_value :: "(real \<Rightarrow> string) \<Rightarrow> json \<Rightarrow> string" where
  "json_value float_repr v =
     (case v of
        JString s \<Rightarrow> json_string s
      | JNumber x \<Rightarrow> float_repr x
      | JBool b \<Rightarrow> (if b then ''true'' else ''false'')
      | JNull \<Rightarrow> ''null'')"

definition json_item :: "(real \<Rightarrow> string) \<Rightarrow> string \<times> json \<Rightarrow> string" where
  "json_item float_repr kv = json_string (fst kv) @ '': '' @ json_value float_repr (snd kv)"

fun join_items :: "string list \<Rightarrow> string" where
  "join_items [] = []"
| "join_items [x] = x"
| "join_items (x # y # ys) = x @ '', '' @ join_items (y # ys)"

definition json_dumps :: "(real \<Rightarrow> string) \<Rightarrow> payload \<Rightarrow> string" where
  "json_dumps float_repr d = ''{'' @ join_items (map (json_item float_repr) d) @ ''}''"

text \<open>
  The dictionary built by \<^verbatim>\<open>publish_movement\<close> (lines 94 to 105) when it does not raise.
  The bytes that the JPEG encoder \<^verbatim>\<open>cv2.imencode\<close> gives for an image are a parameter;
  \<open>now\<close> is the reading of \<^verbatim>\<open>time.time()\<close> of line 99.
\<close>

definition movement_payload :: "(crop \<Rightarrow> byte list) \<Rightarrow> movement_call \<Rightarrow> real \<Rightarrow> payload" where
  "movement_payload imencode c now =
     [(''status'', JString (status_str (call_status c))),
      (''confidence'', JNumber (call_confidence c)),
      (''target'', (case call_target c of None \<Rightarrow> JNull | Some n \<Rightarrow> JString n)),
      (''locked'', JBool (call_locked c)),
      (''timestamp'', JNumber now)]
     @ (case call_face_image c of
          None \<Rightarrow> []
        | Some face_image \<Rightarrow> [(''face_image'', JString (b64encode (imencode face_image)))])"

text \<open>The dictionary built by \<^verbatim>\<open>publish_heartbeat\<close> (lines 111 to 115).\<close>

definition heartbeat_payload :: "real \<Rightarrow> payload" where
  "heartbeat_payload now =
     [(''node'', JString ''pc_vision''), (''status'', JString ''ONLINE''),
      (''timestamp'', JNumber now)]"

text \<open>
  What \<^verbatim>\<open>publish_movement\<close> and \<^verbatim>\<open>publish_heartbeat\<close> hand to \<^verbatim>\<open>self.client.publish\<close>:
  the topic and the text of the payload.
\<close>

definition TEAM_ID :: string where
  "TEAM_ID = ''dragonfly''"

definition TOPIC_MOVEMENT :: string where
  "TOPIC_MOVEMENT = ''vision/'' @ TEAM_ID @ ''/movement''"

definition TOPIC_HEARTBEAT :: string where
  "TOPIC_HEARTBEAT = ''vision/'' @ TEAM_ID @ ''/heartbeat''"

definition publish_movement ::
  "(real \<Rightarrow> string) \<Rightarrow> (crop \<Rightarrow> byte list) \<Rightarrow> movement_call \<Rightarrow> real \<Rightarrow> string \<times> string" where
  "publish_movement float_repr imencode c now =
     (TOPIC_MOVEMENT, json_dumps float_repr (movement_payload imencode c now))"

definition publish_heartbeat :: "(real \<Rightarrow> string) \<Rightarrow> real \<Rightarrow> string \<times> string" where
  "publish_heartbeat float_repr now = (TOPIC_HEARTBEAT, json_dumps float_repr (heartbeat_payload now))"

section \<open>The receiving side: decoding a movement message\<close>

text \<open>
  Modelled from the spec: the program has no decoder; the specification describes the
  receiving side as a JSON parse followed by a base64 decoding of the item
  \<open>face_image\<close>. The definitions of this section follow those words: a base64 decoder for the standard alphabet with padding, and
  a parser for a JSON object whose values are strings, numbers, booleans or null. The
  parser keeps a number as its text.
\<close>

fun index_of :: "'a \<Rightarrow> 'a list \<Rightarrow> nat option" where
  "index_of x [] = None"
| "index_of x (y # ys) = (if x = y then Some 0 else map_option Suc (index_of x ys))"

definition b64_index :: "char \<Rightarrow> nat option" where
  "b64_index c = index_of c b64_alphabet"

definition b64decode_quad :: "char \<Rightarrow> char \<Rightarrow> char \<Rightarrow> char \<Rightarrow> byte list option" where
  "b64decode_quad c1 c2 c3 c4 =
     (case (b64_index c1, b64_index c2) of
        (Some i1, Some i2) \<Rightarrow>
          (if c3 = CHR ''='' \<and> c4 = CHR ''='' then Some [of_nat (i1 * 4 + i2 div 16)]
           else (case b64_index c3 of
                   None \<Rightarrow> None
                 | Some i3 \<Rightarrow>
                     (if c4 = CHR ''=''
                      then Some [of_nat (i1 * 4 + i2 div 16), of_nat (i2 mod 16 * 16 + i3 div 4)]
                      else (case b64_index c4 of
                              None \<Rightarrow> None
                            | Some i4 \<Rightarrow>
                                Some [of_nat (i1 * 4 + i2 div 16),
                                      of_nat (i2 mod 16 * 16 + i3 div 4),
                                      of_nat (i3 mod 4 * 64 + i4)]))))
      | _ \<Rightarrow> None)"

fun b64decode :: "string \<Rightarrow> byte list option" where
  "b64decode [] = Some []"
| "b64decode (c1 # c2 # c3 # c4 # rest) =
     (case b64decode_quad c1 c2 c3 c4 of
        None \<Rightarrow> None
      | Some bs \<Rightarrow>
          (if rest = [] then Some bs
           else if length bs = 3 then map_option ((@) bs) (b64decode rest)
           else None))"
| "b64decode _ = None"

datatype json_parsed = PString string | PNumber string | PBool bool | PNull

definition hex_value :: "char \<Rightarrow> nat option" where
  "hex_value c =
     (case index_of c hex_digits of
        Some n \<Rightarrow> Some n
      | None \<Rightarrow> map_option (\<lambda>n. n + 10) (index_of c ''ABCDEF''))"

definition unescape :: "char \<Rightarrow> char option" where
  "unescape e =
     (if e = dquote then Some dquote
      else if e = backslash then Some backslash
      else if e = CHR ''/'' then Some CHR ''/''
      else if e = CHR ''n'' then Some (CHR 0x0A)
      else if e = CHR ''r'' then Some (CHR 0x0D)
      else if e = CHR ''t'' then Some (CHR 0x09)
      else if e = CHR ''b'' then Some (CHR 0x08)
      else if e = CHR ''f'' then Some (CHR 0x0C)
      else None)"

definition cons_char :: "char \<Rightarrow> (string \<times> string) option \<Rightarrow> (string \<times> string) option" where
  "cons_char c r = (case r of None \<Rightarrow> None | Some (s, rest) \<Rightarrow> Some (c # s, rest))"

fun parse_string :: "string \<Rightarrow> (string \<times> string) option" where
  "parse_string [] = None"
| "parse_string (c # cs) =
     (if c = dquote then Some ([], cs)
      else if c = backslash then
        (case cs of
           [] \<Rightarrow> None
         | e # r \<Rightarrow>
             (if e = CHR ''u'' then
                (case r of
                   h1 # h2 # h3 # h4 # r' \<Rightarrow>
                     (case (hex_value h1, hex_value h2, hex_value h3, hex_value h4) of
                        (Some a, Some b, Some c, Some d) \<Rightarrow>
                          (if ((a * 16 + b) * 16 + c) * 16 + d < 256
                           then cons_char (char_of (((a * 16 + b) * 16 + c) * 16 + d))
                                  (parse_string r')
                           else None)
                      | _ \<Rightarrow> None)
                 | _ \<Rightarrow> None)
              else (case unescape e of
                      None \<Rightarrow> None
                    | Some ch \<Rightarrow> cons_char ch (parse_string r))))
      else if (of_char c :: nat) < 32 then None
      else cons_char c (parse_string cs))"

definition number_chars :: string where
  "number_chars = ''0123456789+-.eE''"

definition is_ws :: "char \<Rightarrow> bool" where
  "is_ws c = (c = CHR '' '' \<or> c = CHR 0x09 \<or> c = CHR 0x0A \<or> c = CHR 0x0D)"

definition skip_ws :: "string \<Rightarrow> string" where
  "skip_ws s = dropWhile is_ws s"

definition parse_value :: "string \<Rightarrow> (json_parsed \<times> string) option" where
  "parse_value s =
     (case s of
        [] \<Rightarrow> None
      | c # cs \<Rightarrow>
          (if c = dquote then
             (case parse_string cs of None \<Rightarrow> None | Some (x, rest) \<Rightarrow> Some (PString x, rest))
           else if take 4 s = ''true'' then Some (PBool True, drop 4 s)
           else if take 5 s = ''false'' then Some (PBool False, drop 5 s)
           else if take 4 s = ''null'' then Some (PNull, drop 4 s)
           else (if c \<in> set number_chars
                 then Some (PNumber (takeWhile (\<lambda>c. c \<in> set number_chars) s),
                            dropWhile (\<lambda>c. c \<in> set number_chars) s)
                 else None)))"

definition parse_member :: "string \<Rightarrow> ((string \<times> json_parsed) \<times> string) option" where
  "parse_member s =
     (case s of
        [] \<Rightarrow> None
      | q # s1 \<Rightarrow>
          (if q \<noteq> dquote then None
           else (case parse_string s1 of
                   None \<Rightarrow> None
                 | Some (k, s2) \<Rightarrow>
                     (case skip_ws s2 of
                        [] \<Rightarrow> None
                      | colon # s3 \<Rightarrow>
                          (if colon \<noteq> CHR 0x3A then None
                           else (case parse_value (skip_ws s3) of
                                   None \<Rightarrow> None
                                 | Some (v, s4) \<Rightarrow> Some ((k, v), skip_ws s4)))))))"

fun parse_members :: "nat \<Rightarrow> string \<Rightarrow> ((string \<times> json_parsed) list \<times> string) option" where
  "parse_members 0 s = None"
| "parse_members (Suc n) s =
     (case parse_member s of
        None \<Rightarrow> None
      | Some (kv, s1) \<Rightarrow>
          (case s1 of
             [] \<Rightarrow> None
           | sep # s2 \<Rightarrow>
               (if sep = CHR 0x7D then Some ([kv], s2)
                else if sep = CHR 0x2C then
                  (case parse_members n (skip_ws s2) of
                     None \<Rightarrow> None
                   | Some (ms, s3) \<Rightarrow> Some (kv # ms, s3))
                else None)))"

definition json_loads :: "string \<Rightarrow> (string \<times> json_parsed) list option" where
  "json_loads s =
     (case skip_ws s of
        [] \<Rightarrow> None
      | b # s1 \<Rightarrow>
          (if b \<noteq> CHR 0x7B then None
           else (case skip_ws s1 of
                   [] \<Rightarrow> None
                 | c # s2 \<Rightarrow>
                     (if c = CHR 0x7D then (if skip_ws s2 = [] then Some [] else None)
                      else (case parse_members (length s1) (c # s2) of
                              None \<Rightarrow> None
                            | Some (ms, s3) \<Rightarrow> (if skip_ws s3 = [] then Some ms else None))))))"

text \<open>Reading the items of a parsed object.\<close>

definition get_string :: "(string \<times> json_parsed) list \<Rightarrow> string \<Rightarrow> string option" where
  "get_string d k = (case map_of d k of Some (PString s) \<Rightarrow> Some s | _ \<Rightarrow> None)"

definition get_bool :: "(string \<times> json_parsed) list \<Rightarrow> string \<Rightarrow> bool option" where
  "get_bool d k = (case map_of d k of Some (PBool b) \<Rightarrow> Some b | _ \<Rightarrow> None)"

definition get_string_or_null :: "(string \<times> json_parsed) list \<Rightarrow> string \<Rightarrow> string option option" where
  "get_string_or_null d k =
     (case map_of d k of Some (PString s) \<Rightarrow> Some (Some s) | Some PNull \<Rightarrow> Some None | _ \<Rightarrow> None)"

text \<open>
  Decoding a movement message that carries an image: the status string, the target name
  (or \<open>None\<close> for null), the locked flag and the bytes of the image.
\<close>

definition decode_movement :: "string \<Rightarrow> (string \<times> string option \<times> bool \<times> byte list) option" where
  "decode_movement s =
     (case json_loads s of
        None \<Rightarrow> None
      | Some d \<Rightarrow>
          (case get_string d ''status'' of
             None \<Rightarrow> None
           | Some st \<Rightarrow>
               (case get_string_or_null d ''target'' of
                  None \<Rightarrow> None
                | Some tg \<Rightarrow>
                    (case get_bool d ''locked'' of
                       None \<Rightarrow> None
                     | Some lk \<Rightarrow>
                         (case get_string d ''face_image'' of
                            None \<Rightarrow> None
                          | Some b \<Rightarrow>
                              (case b64decode b of
                                 None \<Rightarrow> None
                               | Some img \<Rightarrow> Some (st, tg, lk, img)))))))"

text \<open>
  What the parser returns for a value that \<^verbatim>\<open>json.dumps\<close> wrote, and the property of the
  float rendering that the round trip needs: not empty, and made of the characters of a
  JSON number (which holds of the \<^verbatim>\<open>repr\<close> of a finite float).
\<close>

definition parsed_of :: "(real \<Rightarrow> string) \<Rightarrow> json \<Rightarrow> json_parsed" where
  "parsed_of float_repr v =
     (case v of
        JString s \<Rightarrow> PString s
      | JNumber x \<Rightarrow> PNumber (float_repr x)
      | JBool b \<Rightarrow> PBool b
      | JNull \<Rightarrow> PNull)"

definition float_repr_ok :: "(real \<Rightarrow> string) \<Rightarrow> bool" where
  "float_repr_ok float_repr = (\<forall>x. float_repr x \<noteq> [] \<and> set (float_repr x) \<subseteq> set number_chars)"

section \<open>Connection callback and camera acquisition\<close>

text \<open>
  \<^verbatim>\<open>on_connect\<close> calls \<^verbatim>\<open>publish_heartbeat\<close> once and assigns no attribute: the result is
  the unchanged state and the heartbeat payloads published, \<open>now\<close> being the clock reading
  of that call.
\<close>

definition on_connect :: "vision_node \<Rightarrow> real \<Rightarrow> vision_node \<times> payload list" where
  "on_connect self now = (self, [heartbeat_payload now])"

text \<open>
  \<^verbatim>\<open>_open_any_camera\<close>: the devices are a predicate telling which index opens. The loop
  runs over \<^verbatim>\<open>indices\<close>, but each turn constructs \<^verbatim>\<open>cv2.VideoCapture(0)\<close>. The result
  is the index of the device behind the returned capture, or the \<^verbatim>\<open>RuntimeError\<close> with
  the list of indices of its message.
\<close>

fun open_camera_loop :: "(int \<Rightarrow> bool) \<Rightarrow> int list \<Rightarrow> int list \<Rightarrow> py_error + int" where
  "open_camera_loop opens indices [] = Inl (RuntimeError indices)"
| "open_camera_loop opens indices (idx # rest) =
     (if opens 0 then Inr 0 else open_camera_loop opens indices rest)"

definition open_any_camera :: "(int \<Rightarrow> bool) \<Rightarrow> int list \<Rightarrow> py_error + int" where
  "open_any_camera opens indices = open_camera_loop opens indices indices"

section \<open>Example inputs\<close>

definition example_face :: face where
  "example_face = \<lparr>x1 = 200, y1 = 100, x2 = 312, y2 = 220\<rparr>"

definition outside_face :: face where
  "outside_face = \<lparr>x1 = 700, y1 = 100, x2 = 800, y2 = 220\<rparr>"

definition left_face :: face where
  "left_face = \<lparr>x1 = 50, y1 = 100, x2 = 150, y2 = 220\<rparr>"

definition locked_frame :: "face option \<Rightarrow> real \<Rightarrow> frame_in" where
  "locked_frame tf t =
     \<lparr>frame_H = 480, frame_W = 640, target_face = tf, lock_state = LOCKED,
      current_time = t, heartbeat_check_time = t, heartbeat_set_time = t\<rparr>"

definition searching_frame :: "real \<Rightarrow> frame_in" where
  "searching_frame t =
     \<lparr>frame_H = 480, frame_W = 640, target_face = None, lock_state = SEARCHING,
      current_time = t, heartbeat_check_time = t, heartbeat_set_time = t\<rparr>"

definition ten_ms_frames :: "real \<Rightarrow> nat \<Rightarrow> frame_in list" where
  "ten_ms_frames t0 n = map (\<lambda>k. searching_frame (t0 + real k * 0.01)) [0..<n]"

text \<open>A float rendering for the examples: the integral part in decimal, then \<open>.0\<close>.\<close>

fun decimal :: "nat \<Rightarrow> string" where
  "decimal n = (if n < 10 then [''0123456789'' ! n] else decimal (n div 10) @ [''0123456789'' ! (n mod 10)])"

definition example_float_repr :: "real \<Rightarrow> string" where
  "example_float_repr x = (if x < 0 then ''-'' else []) @ decimal (nat \<lfloor>\<bar>x\<bar>\<rfloor>) @ ''.0''"

definition example_call :: movement_call where
  "example_call =
     \<lparr>call_status = MOVE_LEFT, call_confidence = 1.0, call_target = Some ''andrew'',
      call_locked = True, call_face_image = Some (take_crop 480 640 left_face)\<rparr>"

section \<open>The loop body, branch by branch\<close>

lemma rate_limiting_status: "status (snd (rate_limiting self fr st fc)) = st"
  by (simp add: rate_limiting_def Let_def split: prod.splits)

lemma rate_limiting_face_crop: "face_crop (snd (rate_limiting self fr st fc)) = fc"
  by (simp add: rate_limiting_def Let_def split: prod.splits)

lemma rate_limiting_movement:
  "movement (snd (rate_limiting self fr st fc)) =
     (if current_time fr - last_publish_time self \<ge> 0.1
      then Some \<lparr>call_status = st, call_confidence = 1.0,
                 call_target = Some (target_name self),
                 call_locked = (st \<noteq> NO_FACE), call_face_image = fc\<rparr>
      else None)"
  by (simp add: rate_limiting_def Let_def split: prod.splits)

lemma rate_limiting_heartbeat:
  "heartbeat (snd (rate_limiting self fr st fc)) =
     (heartbeat_check_time fr - last_heartbeat self > 5)"
  by (simp add: rate_limiting_def Let_def split: prod.splits)

lemma rate_limiting_snapshot_sent:
  "snapshot_sent (fst (rate_limiting self fr st fc)) = snapshot_sent self"
  by (simp add: rate_limiting_def Let_def split: prod.splits)

lemma rate_limiting_last_status:
  "last_status (fst (rate_limiting self fr st fc)) = last_status self"
  by (simp add: rate_limiting_def Let_def split: prod.splits)

lemma rate_limiting_target_name:
  "target_name (fst (rate_limiting self fr st fc)) = target_name self"
  by (simp add: rate_limiting_def Let_def split: prod.splits)

lemma rate_limiting_last_publish_time:
  "last_publish_time (fst (rate_limiting self fr st fc)) =
     (if current_time fr - last_publish_time self \<ge> 0.1 then current_time fr
      else last_publish_time self)"
  by (simp add: rate_limiting_def Let_def split: prod.splits)

lemma rate_limiting_last_heartbeat:
  "last_heartbeat (fst (rate_limiting self fr st fc)) =
     (if heartbeat_check_time fr - last_heartbeat self > 5 then heartbeat_set_time fr
      else last_heartbeat self)"
  by (simp add: rate_limiting_def Let_def split: prod.splits)

lemma snapshot_sent_update_same:
  "snapshot_sent self = b \<Longrightarrow> self\<lparr>snapshot_sent := b\<rparr> = self"
  by (cases self) simp

lemma publish_gates_no_image: "publish_gates self fr st None = Inr (rate_limiting self fr st None)"
  by (simp add: publish_gates_def imencode_raises_def)

lemma run_step_SEARCHING:
  "lock_state fr = SEARCHING \<Longrightarrow>
   run_step self fr = Inr (rate_limiting (self\<lparr>snapshot_sent := False\<rparr>) fr NO_FACE None)"
  by (simp add: run_step_def snapshot_sent_update_same publish_gates_no_image)

lemma run_step_visible_cases:
  assumes "lock_state fr = LOCKED" and "target_face fr = Some f"
  shows "run_step self fr =
     (if frame_W fr = 0 then Inl ZeroDivisionError
      else if current_time fr - last_publish_time self \<ge> 0.1 \<and> \<not> snapshot_sent self \<and>
              imencode_raises (frame_H fr) (frame_W fr)
                (Some (take_crop (frame_H fr) (frame_W fr) f))
      then Inl Cv2Error
      else Inr (rate_limiting
            (self\<lparr>snapshot_sent := True, last_status := movement_logic (cx_norm f (frame_W fr))\<rparr>)
            fr (movement_logic (cx_norm f (frame_W fr)))
            (if snapshot_sent self then None else Some (take_crop (frame_H fr) (frame_W fr) f))))"
proof (cases "snapshot_sent self")
  case True
  with assms show ?thesis
    by (simp add: run_step_def Let_def snapshot_sent_update_same publish_gates_no_image)
next
  case False
  with assms show ?thesis
    by (simp add: run_step_def Let_def publish_gates_def)
qed

lemma run_step_visible:
  "lock_state fr = LOCKED \<Longrightarrow> target_face fr = Some f \<Longrightarrow> 0 < frame_W fr \<Longrightarrow>
   \<not> (current_time fr - last_publish_time self \<ge> 0.1 \<and> \<not> snapshot_sent self \<and>
      imencode_raises (frame_H fr) (frame_W fr) (Some (take_crop (frame_H fr) (frame_W fr) f))) \<Longrightarrow>
   run_step self fr =
     Inr (rate_limiting
            (self\<lparr>snapshot_sent := True, last_status := movement_logic (cx_norm f (frame_W fr))\<rparr>)
            fr (movement_logic (cx_norm f (frame_W fr)))
            (if snapshot_sent self then None else Some (take_crop (frame_H fr) (frame_W fr) f)))"
  by (simp only: run_step_visible_cases) simp

lemma run_step_visible_Inr:
  assumes "lock_state fr = LOCKED" and "target_face fr = Some f"
    and "run_step self fr = Inr (self', out)"
  shows "0 < frame_W fr"
    and "(self', out) = rate_limiting
            (self\<lparr>snapshot_sent := True, last_status := movement_logic (cx_norm f (frame_W fr))\<rparr>)
            fr (movement_logic (cx_norm f (frame_W fr)))
            (if snapshot_sent self then None else Some (take_crop (frame_H fr) (frame_W fr) f))"
    and "\<not> (current_time fr - last_publish_time self \<ge> 0.1 \<and> \<not> snapshot_sent self \<and>
      imencode_raises (frame_H fr) (frame_W fr) (Some (take_crop (frame_H fr) (frame_W fr) f)))"
proof -
  let ?raise = "current_time fr - last_publish_time self \<ge> 0.1 \<and> \<not> snapshot_sent self \<and>
      imencode_raises (frame_H fr) (frame_W fr) (Some (take_crop (frame_H fr) (frame_W fr) f))"
  note c = run_step_visible_cases [OF assms(1,2), of self]
  show w: "0 < frame_W fr"
  proof (cases "frame_W fr = 0")
    case True
    with c assms(3) show ?thesis by simp
  next
    case False
    then show ?thesis by simp
  qed
  show nr: "\<not> ?raise"
  proof
    assume ?raise
    with c w have "run_step self fr = Inl Cv2Error" by simp
    with assms(3) show False by simp
  qed
  show "(self', out) = rate_limiting
            (self\<lparr>snapshot_sent := True, last_status := movement_logic (cx_norm f (frame_W fr))\<rparr>)
            fr (movement_logic (cx_norm f (frame_W fr)))
            (if snapshot_sent self then None else Some (take_crop (frame_H fr) (frame_W fr) f))"
    using assms(3) run_step_visible [OF assms(1,2) w nr] by (simp only: sum.inject)
qed

lemma run_step_width_zero:
  "lock_state fr = LOCKED \<Longrightarrow> target_face fr = Some f \<Longrightarrow> frame_W fr = 0 \<Longrightarrow>
   run_step self fr = Inl ZeroDivisionError"
  by (simp add: run_step_def Let_def split: prod.splits)

lemma run_step_absent:
  "lock_state fr = LOCKED \<Longrightarrow> target_face fr = None \<Longrightarrow>
   run_step self fr =
     Inr (rate_limiting self fr
            (if last_status self = NO_FACE then CENTERED else last_status self) None)"
  by (simp add: run_step_def publish_gates_no_image)

lemma movement_logic_not_NO_FACE: "movement_logic c \<noteq> NO_FACE"
  by (simp add: movement_logic_def)

lemma run_step_visible_fields:
  assumes "lock_state fr = LOCKED" and "target_face fr = Some f"
    and "run_step self fr = Inr (self', out)"
  shows "status out = movement_logic (cx_norm f (frame_W fr))"
    and "last_status self' = status out"
    and "snapshot_sent self'"
    and "face_crop out = (if snapshot_sent self then None else Some (take_crop (frame_H fr) (frame_W fr) f))"
    and "0 < frame_W fr"
proof -
  show w: "0 < frame_W fr"
    by (rule run_step_visible_Inr(1) [OF assms])
  let ?r = "rate_limiting
            (self\<lparr>snapshot_sent := True, last_status := movement_logic (cx_norm f (frame_W fr))\<rparr>)
            fr (movement_logic (cx_norm f (frame_W fr)))
            (if snapshot_sent self then None else Some (take_crop (frame_H fr) (frame_W fr) f))"
  have eq: "(self', out) = ?r"
    by (rule run_step_visible_Inr(2) [OF assms])
  have e: "self' = fst ?r" "out = snd ?r"
    using arg_cong [OF eq, of fst] arg_cong [OF eq, of snd] by (simp_all only: fst_conv snd_conv)
  show "status out = movement_logic (cx_norm f (frame_W fr))"
    unfolding e by (rule rate_limiting_status)
  then show "last_status self' = status out"
    unfolding e by (simp add: rate_limiting_last_status)
  show "snapshot_sent self'"
    unfolding e by (simp add: rate_limiting_snapshot_sent)
  show "face_crop out = (if snapshot_sent self then None else Some (take_crop (frame_H fr) (frame_W fr) f))"
    unfolding e by (rule rate_limiting_face_crop)
qed

lemma run_step_absent_fields:
  assumes "lock_state fr = LOCKED" and "target_face fr = None"
  shows "\<exists>self' out. run_step self fr = Inr (self', out) \<and>
           status out = (if last_status self = NO_FACE then CENTERED else last_status self) \<and>
           last_status self' = last_status self \<and> snapshot_sent self' = snapshot_sent self \<and>
           face_crop out = None"
proof -
  let ?r = "rate_limiting self fr (if last_status self = NO_FACE then CENTERED else last_status self) None"
  have "run_step self fr = Inr (fst ?r, snd ?r)"
    using assms by (simp add: run_step_absent)
  moreover have "status (snd ?r) = (if last_status self = NO_FACE then CENTERED else last_status self)"
    by (rule rate_limiting_status)
  moreover have "last_status (fst ?r) = last_status self"
    by (rule rate_limiting_last_status)
  moreover have "snapshot_sent (fst ?r) = snapshot_sent self"
    by (rule rate_limiting_snapshot_sent)
  moreover have "face_crop (snd ?r) = None"
    by (rule rate_limiting_face_crop)
  ultimately show ?thesis by blast
qed

lemma run_step_SEARCHING_fields:
  assumes "lock_state fr = SEARCHING"
  shows "\<exists>self' out. run_step self fr = Inr (self', out) \<and> status out = NO_FACE \<and>
           last_status self' = last_status self \<and> \<not> snapshot_sent self' \<and> face_crop out = None"
proof -
  let ?r = "rate_limiting (self\<lparr>snapshot_sent := False\<rparr>) fr NO_FACE None"
  have "run_step self fr = Inr (fst ?r, snd ?r)"
    using assms by (simp add: run_step_SEARCHING)
  moreover have "status (snd ?r) = NO_FACE"
    by (rule rate_limiting_status)
  moreover have "last_status (fst ?r) = last_status self"
    by (simp add: rate_limiting_last_status)
  moreover have "\<not> snapshot_sent (fst ?r)"
    by (simp add: rate_limiting_snapshot_sent)
  moreover have "face_crop (snd ?r) = None"
    by (rule rate_limiting_face_crop)
  ultimately show ?thesis by blast
qed

lemma run_Cons_Inr:
  "run_step self fr = Inr (self', out) \<Longrightarrow> run self' frs = (outs, r) \<Longrightarrow>
   run self (fr # frs) = (out # outs, r)"
  by simp

lemma run_two:
  assumes "run self [f1, f2] = ([o1, o2], Inr self2)"
  shows "\<exists>self1. run_step self f1 = Inr (self1, o1) \<and> run_step self1 f2 = Inr (self2, o2)"
proof (cases "run_step self f1")
  case (Inl e)
  with assms show ?thesis by simp
next
  case (Inr p)
  obtain self1 p1 where p: "p = (self1, p1)" by (cases p)
  show ?thesis
  proof (cases "run_step self1 f2")
    case (Inl e)
    with assms Inr p show ?thesis by simp
  next
    case (Inr q)
    obtain self2' q1 where q: "q = (self2', q1)" by (cases q)
    from assms \<open>run_step self f1 = Inr p\<close> p Inr q show ?thesis by simp
  qed
qed

lemma run_step_is_rate_limiting:
  assumes "run_step self fr = Inr (self', out)"
  shows "\<exists>X st fc. (self', out) = rate_limiting X fr st fc \<and>
           last_publish_time X = last_publish_time self \<and>
           last_heartbeat X = last_heartbeat self \<and> target_name X = target_name self"
proof (cases "lock_state fr")
  case SEARCHING
  with assms have "(self', out) = rate_limiting (self\<lparr>snapshot_sent := False\<rparr>) fr NO_FACE None"
    by (simp add: run_step_SEARCHING)
  then show ?thesis by force
next
  case LOCKED
  show ?thesis
  proof (cases "target_face fr")
    case None
    with LOCKED assms have "(self', out) = rate_limiting self fr
        (if last_status self = NO_FACE then CENTERED else last_status self) None"
      by (simp add: run_step_absent)
    then show ?thesis by blast
  next
    case (Some f)
    let ?X = "self\<lparr>snapshot_sent := True, last_status := movement_logic (cx_norm f (frame_W fr))\<rparr>"
    have "(self', out) = rate_limiting ?X
            fr (movement_logic (cx_norm f (frame_W fr)))
            (if snapshot_sent self then None else Some (take_crop (frame_H fr) (frame_W fr) f))"
      by (rule run_step_visible_Inr(2) [OF LOCKED Some assms])
    moreover have "last_publish_time ?X = last_publish_time self \<and>
           last_heartbeat ?X = last_heartbeat self \<and> target_name ?X = target_name self"
      by simp
    ultimately show ?thesis by blast
  qed
qed

lemma run_step_gates:
  assumes "run_step self fr = Inr (self', out)"
  shows "movement out =
           (if current_time fr - last_publish_time self \<ge> 0.1
            then Some \<lparr>call_status = status out, call_confidence = 1.0,
                       call_target = Some (target_name self),
                       call_locked = (status out \<noteq> NO_FACE), call_face_image = face_crop out\<rparr>
            else None)"
    and "last_publish_time self' =
           (if current_time fr - last_publish_time self \<ge> 0.1 then current_time fr
            else last_publish_time self)"
    and "heartbeat out = (heartbeat_check_time fr - last_heartbeat self > 5)"
    and "last_heartbeat self' =
           (if heartbeat_check_time fr - last_heartbeat self > 5 then heartbeat_set_time fr
            else last_heartbeat self)"
proof -
  obtain X st fc where eq: "(self', out) = rate_limiting X fr st fc"
    and x: "last_publish_time X = last_publish_time self"
      "last_heartbeat X = last_heartbeat self" "target_name X = target_name self"
    using run_step_is_rate_limiting [OF assms] by blast
  have e: "self' = fst (rate_limiting X fr st fc)" "out = snd (rate_limiting X fr st fc)"
    using arg_cong [OF eq, of fst] arg_cong [OF eq, of snd] by (simp_all only: fst_conv snd_conv)
  show "movement out =
           (if current_time fr - last_publish_time self \<ge> 0.1
            then Some \<lparr>call_status = status out, call_confidence = 1.0,
                       call_target = Some (target_name self),
                       call_locked = (status out \<noteq> NO_FACE), call_face_image = face_crop out\<rparr>
            else None)"
    unfolding e by (simp only: rate_limiting_movement rate_limiting_status rate_limiting_face_crop x)
  show "last_publish_time self' =
           (if current_time fr - last_publish_time self \<ge> 0.1 then current_time fr
            else last_publish_time self)"
    unfolding e by (simp only: rate_limiting_last_publish_time x)
  show "heartbeat out = (heartbeat_check_time fr - last_heartbeat self > 5)"
    unfolding e by (simp only: rate_limiting_heartbeat x)
  show "last_heartbeat self' =
           (if heartbeat_check_time fr - last_heartbeat self > 5 then heartbeat_set_time fr
            else last_heartbeat self)"
    unfolding e by (simp only: rate_limiting_last_heartbeat x)
qed

section \<open>Movement decision\<close>

lemma in_frame_not_empty:
  assumes "in_frame H W f"
  shows "\<not> imencode_raises H W (Some (take_crop H W f))"
proof -
  from assms have h: "0 < H" "0 \<le> y1 f" "y1 f \<le> y2 f" "y2 f \<le> int H"
    and w: "0 < W" "0 \<le> x1 f" "x1 f \<le> x2 f" "x2 f \<le> int W"
    by (simp_all add: in_frame_def)
  have rows: "slice_length H (max 0 (y1 f - 20)) (min (int H) (y2 f + 20)) \<noteq> 0"
    using h by (auto simp: slice_length_def Let_def min_def max_def)
  have cols: "slice_length W (max 0 (x1 f - 20)) (min (int W) (x2 f + 20)) \<noteq> 0"
    using w by (auto simp: slice_length_def Let_def min_def max_def)
  from rows cols show ?thesis
    by (simp add: imencode_raises_def take_crop_def Let_def)
qed

lemma run_step_in_frame:
  assumes "lock_state fr = LOCKED" and "target_face fr = Some f"
    and "in_frame (frame_H fr) (frame_W fr) f"
  shows "\<exists>self' out. run_step self fr = Inr (self', out)"
proof -
  have w: "0 < frame_W fr" using assms(3) by (simp add: in_frame_def)
  have nr: "\<not> (current_time fr - last_publish_time self \<ge> 0.1 \<and> \<not> snapshot_sent self \<and>
      imencode_raises (frame_H fr) (frame_W fr) (Some (take_crop (frame_H fr) (frame_W fr) f)))"
    using in_frame_not_empty [OF assms(3)] by simp
  from run_step_visible [OF assms(1,2) w nr] show ?thesis
    by (metis prod.collapse)
qed

text \<open>
  With the box far enough outside the frame the crop is empty. When the snapshot is
  still to be taken and the rate limit admits the message, the image encoder raises and
  the loop ends: so it is for the box from 700 to 800 on a frame 640 wide.
\<close>

lemma run_step_encoder_raises:
  assumes "lock_state fr = LOCKED" and "target_face fr = Some f" and "0 < frame_W fr"
    and "current_time fr - last_publish_time self \<ge> 0.1" and "\<not> snapshot_sent self"
    and "imencode_raises (frame_H fr) (frame_W fr) (Some (take_crop (frame_H fr) (frame_W fr) f))"
  shows "run_step self fr = Inl Cv2Error"
  using assms by (simp add: run_step_visible_cases)

lemma empty_crop_raises:
  "run_step (init_node ''andrew'') (locked_frame (Some outside_face) 1000) = Inl Cv2Error"
proof (rule run_step_encoder_raises)
  show "lock_state (locked_frame (Some outside_face) 1000) = LOCKED"
    and "target_face (locked_frame (Some outside_face) 1000) = Some outside_face"
    and "0 < frame_W (locked_frame (Some outside_face) 1000)"
    by (simp_all add: locked_frame_def)
  show "current_time (locked_frame (Some outside_face) 1000) -
      last_publish_time (init_node ''andrew'') \<ge> 0.1"
    and "\<not> snapshot_sent (init_node ''andrew'')"
    by (simp_all add: locked_frame_def init_node_def)
  show "imencode_raises (frame_H (locked_frame (Some outside_face) 1000))
      (frame_W (locked_frame (Some outside_face) 1000))
      (Some (take_crop (frame_H (locked_frame (Some outside_face) 1000))
         (frame_W (locked_frame (Some outside_face) 1000)) outside_face))"
    by (simp add: locked_frame_def imencode_raises_def take_crop_def slice_length_def
        outside_face_def Let_def)
qed

text \<open>
  Claim C1. On a frame whose lock state is LOCKED and whose target face is present, with
  the coordinates of the box and the width of the frame in the range of 32-bit integers:
  whenever the iteration completes, its status is a function of the normalised
  horizontal centre \<open>((x1 + x2) / 2) / W\<close> alone, MOVE\_LEFT below \<open>0.4\<close>, MOVE\_RIGHT
  above \<open>0.6\<close>, CENTERED otherwise, and CENTERED at \<open>0.4\<close> and at \<open>0.6\<close>; and the
  iteration does complete when the box lies within the frame.
\<close>

theorem deadband_status:
  assumes "lock_state fr = LOCKED" and "target_face fr = Some f"
    and "frame_W fr < 2 ^ 31" and "\<bar>x1 f\<bar> < 2 ^ 31" and "\<bar>x2 f\<bar> < 2 ^ 31"
  shows "(run_step self fr = Inr (self', out) \<longrightarrow>
            status out =
              (if (real_of_int (x1 f + x2 f) / 2) / real (frame_W fr) < 0.4 then MOVE_LEFT
               else if (real_of_int (x1 f + x2 f) / 2) / real (frame_W fr) > 0.6 then MOVE_RIGHT
               else CENTERED) \<and>
            ((real_of_int (x1 f + x2 f) / 2) / real (frame_W fr) = 0.4 \<longrightarrow> status out = CENTERED) \<and>
            ((real_of_int (x1 f + x2 f) / 2) / real (frame_W fr) = 0.6 \<longrightarrow> status out = CENTERED)) \<and>
         (in_frame (frame_H fr) (frame_W fr) f \<longrightarrow>
            (\<exists>self' out. run_step self fr = Inr (self', out)))"
proof (intro conjI impI)
  assume r: "run_step self fr = Inr (self', out)"
  have st: "status out = movement_logic ((real_of_int (x1 f + x2 f) / 2) / real (frame_W fr))"
    using run_step_visible_fields(1) [OF assms(1,2) r] by (simp only: cx_norm_def)
  have ml: "movement_logic c =
      (if c < 0.4 then MOVE_LEFT else if c > 0.6 then MOVE_RIGHT else CENTERED)" for c
    by (simp add: movement_logic_def)
  show "status out =
      (if (real_of_int (x1 f + x2 f) / 2) / real (frame_W fr) < 0.4 then MOVE_LEFT
       else if (real_of_int (x1 f + x2 f) / 2) / real (frame_W fr) > 0.6 then MOVE_RIGHT
       else CENTERED)"
    by (simp only: st ml)
  show "status out = CENTERED" if "(real_of_int (x1 f + x2 f) / 2) / real (frame_W fr) = 0.4"
    by (simp only: st that) (simp add: movement_logic_def)
  show "status out = CENTERED" if "(real_of_int (x1 f + x2 f) / 2) / real (frame_W fr) = 0.6"
    by (simp only: st that) (simp add: movement_logic_def)
next
  assume "in_frame (frame_H fr) (frame_W fr) f"
  then show "\<exists>self' out. run_step self fr = Inr (self', out)"
    by (rule run_step_in_frame [OF assms(1,2)])
qed

theorem deadband_status_witness:
  "lock_state (locked_frame (Some example_face) 1000) = LOCKED \<and>
   target_face (locked_frame (Some example_face) 1000) = Some example_face \<and>
   frame_W (locked_frame (Some example_face) 1000) < 2 ^ 31 \<and>
   \<bar>x1 example_face\<bar> < 2 ^ 31 \<and> \<bar>x2 example_face\<bar> < 2 ^ 31 \<and>
   in_frame (frame_H (locked_frame (Some example_face) 1000))
     (frame_W (locked_frame (Some example_face) 1000)) example_face \<and>
   (real_of_int (x1 example_face + x2 example_face) / 2) /
     real (frame_W (locked_frame (Some example_face) 1000)) = 0.4 \<and>
   (\<exists>self' out. run_step (init_node ''andrew'') (locked_frame (Some example_face) 1000) = Inr (self', out) \<and>
      status out = CENTERED)"
proof -
  let ?fr = "locked_frame (Some example_face) 1000"
  let ?self = "init_node ''andrew''"
  have h: "lock_state ?fr = LOCKED" "target_face ?fr = Some example_face"
    "frame_W ?fr < 2 ^ 31" "\<bar>x1 example_face\<bar> < 2 ^ 31" "\<bar>x2 example_face\<bar> < 2 ^ 31"
    by (simp_all add: locked_frame_def example_face_def)
  have inside: "in_frame (frame_H ?fr) (frame_W ?fr) example_face"
    by (simp add: in_frame_def locked_frame_def example_face_def)
  have c: "(real_of_int (x1 example_face + x2 example_face) / 2) / real (frame_W ?fr) = 0.4"
    by (simp add: locked_frame_def example_face_def)
  obtain s out where r: "run_step ?self ?fr = Inr (s, out)"
    using deadband_status [OF h, of ?self, THEN conjunct2, THEN mp, OF inside] by blast
  have "status out = CENTERED"
    using deadband_status [OF h, of ?self s out, THEN conjunct1, THEN mp, OF r,
        THEN conjunct2, THEN conjunct1, THEN mp, OF c] .
  with r have "\<exists>self' out. run_step ?self ?fr = Inr (self', out) \<and> status out = CENTERED"
    by blast
  with h inside c show ?thesis by blast
qed

text \<open>
  Claim C2. On a LOCKED frame without a target face the iteration returns, its status is
  the stored \<open>last_status\<close> (CENTERED if that is NO\_FACE), and \<open>last_status\<close> is
  unchanged. In particular: when two LOCKED frames with a face gave MOVE\_LEFT and then
  CENTERED, two further LOCKED frames without a face both give CENTERED.
\<close>

theorem hold_last_status:
  "(lock_state fr = LOCKED \<and> target_face fr = None \<longrightarrow>
      (\<exists>self' out. run_step self fr = Inr (self', out) \<and>
         status out = (if last_status self = NO_FACE then CENTERED else last_status self) \<and>
         last_status self' = last_status self)) \<and>
   (lock_state fra = LOCKED \<and> target_face fra = Some a \<and>
    lock_state frb = LOCKED \<and> target_face frb = Some b \<and>
    lock_state frc = LOCKED \<and> target_face frc = None \<and>
    lock_state frd = LOCKED \<and> target_face frd = None \<and>
    run self [fra, frb] = ([outa, outb], Inr selfb) \<and> status outa = MOVE_LEFT \<and> status outb = CENTERED \<longrightarrow>
      (\<exists>outc outd selfd. run self [fra, frb, frc, frd] = ([outa, outb, outc, outd], Inr selfd) \<and>
         status outc = CENTERED \<and> status outd = CENTERED \<and> last_status selfd = CENTERED))"
proof (intro conjI impI)
  assume h: "lock_state fr = LOCKED \<and> target_face fr = None"
  then show "\<exists>self' out. run_step self fr = Inr (self', out) \<and>
         status out = (if last_status self = NO_FACE then CENTERED else last_status self) \<and>
         last_status self' = last_status self"
    using run_step_absent_fields [of fr self] by blast
next
  assume h: "lock_state fra = LOCKED \<and> target_face fra = Some a \<and>
    lock_state frb = LOCKED \<and> target_face frb = Some b \<and>
    lock_state frc = LOCKED \<and> target_face frc = None \<and>
    lock_state frd = LOCKED \<and> target_face frd = None \<and>
    run self [fra, frb] = ([outa, outb], Inr selfb) \<and> status outa = MOVE_LEFT \<and> status outb = CENTERED"
  obtain selfa where ra: "run_step self fra = Inr (selfa, outa)"
    and rb: "run_step selfa frb = Inr (selfb, outb)"
    using h run_two by blast
  have lb: "last_status selfb = CENTERED"
    using run_step_visible_fields(2) [OF _ _ rb] h by simp
  obtain selfc outc where rc: "run_step selfb frc = Inr (selfc, outc)"
    and stc: "status outc = CENTERED" and lc: "last_status selfc = CENTERED"
    using run_step_absent_fields [of frc selfb] h lb by auto
  obtain selfd outd where rd: "run_step selfc frd = Inr (selfd, outd)"
    and std: "status outd = CENTERED" and ld: "last_status selfd = CENTERED"
    using run_step_absent_fields [of frd selfc] h lc by auto
  have "run self [fra, frb, frc, frd] = ([outa, outb, outc, outd], Inr selfd)"
    using ra rb rc rd by simp
  with stc std ld
  show "\<exists>outc outd selfd. run self [fra, frb, frc, frd] = ([outa, outb, outc, outd], Inr selfd) \<and>
         status outc = CENTERED \<and> status outd = CENTERED \<and> last_status selfd = CENTERED"
    by blast
qed

theorem hold_last_status_witness:
  "lock_state (locked_frame None 1000) = LOCKED \<and> target_face (locked_frame None 1000) = None \<and>
   (\<exists>self' out. run_step (init_node ''andrew'') (locked_frame None 1000) = Inr (self', out) \<and>
      status out = CENTERED \<and> last_status self' = CENTERED) \<and>
   map status (fst (run (init_node ''andrew'')
      [locked_frame (Some left_face) 1000, locked_frame (Some example_face) 1001])) =
     [MOVE_LEFT, CENTERED] \<and>
   map status (fst (run (init_node ''andrew'')
      [locked_frame (Some left_face) 1000, locked_frame (Some example_face) 1001,
       locked_frame None 1002, locked_frame None 1003])) =
     [MOVE_LEFT, CENTERED, CENTERED, CENTERED]"
proof -
  let ?f1 = "locked_frame (Some left_face) 1000" and ?f2 = "locked_frame (Some example_face) 1001"
  let ?f3 = "locked_frame None 1002" and ?f4 = "locked_frame None 1003"
  let ?self = "init_node ''andrew''"
  obtain o1 o2 self2 where r: "run ?self [?f1, ?f2] = ([o1, o2], Inr self2)"
    and st: "status o1 = MOVE_LEFT" "status o2 = CENTERED"
    by (simp add: run_step_def publish_gates_def imencode_raises_def slice_length_def
        take_crop_def rate_limiting_def init_node_def locked_frame_def left_face_def
        example_face_def movement_logic_def cx_norm_def Let_def)
  have a: "\<exists>self' out. run_step ?self (locked_frame None 1000) = Inr (self', out) \<and>
      status out = CENTERED \<and> last_status self' = CENTERED"
    using hold_last_status [where fr = "locked_frame None 1000" and self = ?self]
    by (simp add: locked_frame_def init_node_def)
  have "\<exists>o3 o4 self4. run ?self [?f1, ?f2, ?f3, ?f4] = ([o1, o2, o3, o4], Inr self4) \<and>
         status o3 = CENTERED \<and> status o4 = CENTERED \<and> last_status self4 = CENTERED"
    using hold_last_status [where fra = ?f1 and a = left_face and frb = ?f2 and b = example_face
        and frc = ?f3 and frd = ?f4 and self = ?self and outa = o1 and outb = o2 and selfb = self2] r st
    by (simp add: locked_frame_def)
  then obtain o3 o4 self4 where "run ?self [?f1, ?f2, ?f3, ?f4] = ([o1, o2, o3, o4], Inr self4)"
    and "status o3 = CENTERED" "status o4 = CENTERED" by blast
  then have "map status (fst (run ?self [?f1, ?f2, ?f3, ?f4])) = [MOVE_LEFT, CENTERED, CENTERED, CENTERED]"
    using st by simp
  moreover have "map status (fst (run ?self [?f1, ?f2])) = [MOVE_LEFT, CENTERED]"
    using r st by simp
  ultimately show ?thesis
    using a by (simp add: locked_frame_def)
qed

text \<open>
  Claim C7. Whatever the state, an iteration that completes reports NO\_FACE exactly when
  the lock state of its frame is SEARCHING; so no LOCKED frame, with or without a face,
  reports NO\_FACE.
\<close>

theorem no_face_iff_searching:
  "run_step self fr = Inr (self', out) \<Longrightarrow> (status out = NO_FACE) = (lock_state fr = SEARCHING)"
proof (cases "lock_state fr")
  case SEARCHING
  assume "run_step self fr = Inr (self', out)"
  with SEARCHING run_step_SEARCHING_fields [of fr self] show ?thesis by auto
next
  case LOCKED
  assume r: "run_step self fr = Inr (self', out)"
  show ?thesis
  proof (cases "target_face fr")
    case None
    with LOCKED r run_step_absent_fields [of fr self] show ?thesis by auto
  next
    case (Some f)
    with LOCKED r run_step_visible_fields(1) [of fr f self self' out] show ?thesis
      by (simp add: movement_logic_not_NO_FACE)
  qed
qed

theorem no_face_iff_searching_witness:
  "run_step (init_node ''andrew'') (searching_frame 1000) =
     Inr (fst (rate_limiting (init_node ''andrew'') (searching_frame 1000) NO_FACE None),
          snd (rate_limiting (init_node ''andrew'') (searching_frame 1000) NO_FACE None)) \<and>
   (status (snd (rate_limiting (init_node ''andrew'') (searching_frame 1000) NO_FACE None)) = NO_FACE) =
   (lock_state (searching_frame 1000) = SEARCHING)"
proof -
  have r: "run_step (init_node ''andrew'') (searching_frame 1000) =
     Inr (fst (rate_limiting (init_node ''andrew'') (searching_frame 1000) NO_FACE None),
          snd (rate_limiting (init_node ''andrew'') (searching_frame 1000) NO_FACE None))"
    by (simp add: run_step_def publish_gates_def imencode_raises_def slice_length_def
        take_crop_def searching_frame_def init_node_def)
  from no_face_iff_searching [OF r] r show ?thesis by simp
qed

section \<open>Movement payload\<close>

text \<open>
  Claim C8. Whenever an iteration publishes a movement message, the \<open>locked\<close> item of
  its payload is true exactly when its status is not NO\_FACE, the \<open>status\<close> item being
  the string of the status the iteration computed; this holds for each of the four
  status values.
\<close>

theorem locked_field:
  assumes "run_step self fr = Inr (self', out)" and "movement out = Some c"
  shows "map_of (movement_payload imencode c now) ''locked'' = Some (JBool (call_status c \<noteq> NO_FACE)) \<and>
         map_of (movement_payload imencode c now) ''status'' = Some (JString (status_str (call_status c))) \<and>
         (status_str (call_status c) = ''NO_FACE'') = (call_status c = NO_FACE) \<and>
         call_status c = status out"
proof -
  have c: "c = \<lparr>call_status = status out, call_confidence = 1.0,
                       call_target = Some (target_name self),
                       call_locked = (status out \<noteq> NO_FACE), call_face_image = face_crop out\<rparr>"
    using run_step_gates(1) [OF assms(1)] assms(2) by (simp split: if_splits)
  have "(status_str st = ''NO_FACE'') = (st = NO_FACE)" for st
    by (cases st) simp_all
  then show ?thesis
    unfolding c by (simp add: movement_payload_def)
qed

theorem locked_field_witness:
  "run_step (init_node ''andrew'') (locked_frame (Some left_face) 1000) =
     Inr (fst (rate_limiting ((init_node ''andrew'')\<lparr>snapshot_sent := True, last_status := MOVE_LEFT\<rparr>)
                 (locked_frame (Some left_face) 1000) MOVE_LEFT
                 (Some (take_crop 480 640 left_face))),
          snd (rate_limiting ((init_node ''andrew'')\<lparr>snapshot_sent := True, last_status := MOVE_LEFT\<rparr>)
                 (locked_frame (Some left_face) 1000) MOVE_LEFT
                 (Some (take_crop 480 640 left_face)))) \<and>
   map_of (movement_payload (\<lambda>img. [0xFF, 0xD8, 0xFF]) 
      \<lparr>call_status = MOVE_LEFT, call_confidence = 1.0, call_target = Some ''andrew'',
       call_locked = True, call_face_image = Some (take_crop 480 640 left_face)\<rparr> 1000) ''locked'' = Some (JBool True)"
proof -
  let ?r = "rate_limiting ((init_node ''andrew'')\<lparr>snapshot_sent := True, last_status := MOVE_LEFT\<rparr>)
                 (locked_frame (Some left_face) 1000) MOVE_LEFT
                 (Some (take_crop 480 640 left_face))"
  let ?c = "\<lparr>call_status = MOVE_LEFT, call_confidence = 1.0, call_target = Some ''andrew'',
       call_locked = True, call_face_image = Some (take_crop 480 640 left_face)\<rparr>"
  have r: "run_step (init_node ''andrew'') (locked_frame (Some left_face) 1000) = Inr (fst ?r, snd ?r)"
    by (simp add: run_step_def publish_gates_def imencode_raises_def slice_length_def
        take_crop_def locked_frame_def init_node_def left_face_def movement_logic_def
        cx_norm_def Let_def)
  have m: "movement (snd ?r) = Some ?c"
    by (simp add: rate_limiting_movement locked_frame_def init_node_def)
  from locked_field [OF r m, of "\<lambda>img. [0xFF, 0xD8, 0xFF]" 1000] r show ?thesis by simp
qed

section \<open>Snapshot gate\<close>

lemma run_step_snapshot:
  assumes "run_step self fr = Inr (self', out)"
  shows "lock_state fr = SEARCHING \<Longrightarrow> face_crop out = None \<and> \<not> snapshot_sent self'"
    and "(face_crop out \<noteq> None) = (\<not> snapshot_sent self \<and> snapshot_sent self')"
    and "(snapshot_sent self \<and> \<not> snapshot_sent self') = (snapshot_sent self \<and> lock_state fr = SEARCHING)"
proof -
  have "(lock_state fr = SEARCHING \<longrightarrow> face_crop out = None \<and> \<not> snapshot_sent self') \<and>
    (face_crop out \<noteq> None) = (\<not> snapshot_sent self \<and> snapshot_sent self') \<and>
    (snapshot_sent self \<and> \<not> snapshot_sent self') = (snapshot_sent self \<and> lock_state fr = SEARCHING)"
  proof (cases "lock_state fr")
    case SEARCHING
    with assms run_step_SEARCHING_fields [of fr self] show ?thesis by auto
  next
    case LOCKED
    show ?thesis
    proof (cases "target_face fr")
      case None
      with LOCKED assms run_step_absent_fields [of fr self] show ?thesis by auto
    next
      case (Some f)
      from run_step_visible_fields(3,4) [OF LOCKED Some assms] LOCKED show ?thesis by simp
    qed
  qed
  then show "lock_state fr = SEARCHING \<Longrightarrow> face_crop out = None \<and> \<not> snapshot_sent self'"
    and "(face_crop out \<noteq> None) = (\<not> snapshot_sent self \<and> snapshot_sent self')"
    and "(snapshot_sent self \<and> \<not> snapshot_sent self') = (snapshot_sent self \<and> lock_state fr = SEARCHING)"
    by blast+
qed

lemma run_Cons_cases:
  assumes "run self (fr # frs) = (outs, r)"
  shows "(\<exists>e. run_step self fr = Inl e \<and> outs = [] \<and> r = Inl e) \<or>
         (\<exists>self' out outs'. run_step self fr = Inr (self', out) \<and> run self' frs = (outs', r) \<and>
            outs = out # outs')"
proof (cases "run_step self fr")
  case (Inl e)
  with assms show ?thesis by simp
next
  case (Inr p)
  obtain self' out where p: "p = (self', out)" by (cases p)
  obtain outs' r' where q: "run self' frs = (outs', r')" by (cases "run self' frs")
  from assms Inr p q show ?thesis by simp
qed

lemma locked_run_crops:
  assumes "\<forall>fr\<in>set ep. lock_state fr = LOCKED" and "run self ep = (outs, r)"
  shows "length (filter (\<lambda>out. face_crop out \<noteq> None) outs) \<le> (if snapshot_sent self then 0 else 1)"
  using assms
proof (induction ep arbitrary: self outs r)
  case Nil
  then show ?case by simp
next
  case (Cons fr ep)
  from run_Cons_cases [OF Cons.prems(2)] show ?case
  proof
    assume "\<exists>e. run_step self fr = Inl e \<and> outs = [] \<and> r = Inl e"
    then show ?thesis by auto
  next
    assume "\<exists>self' out outs'. run_step self fr = Inr (self', out) \<and> run self' ep = (outs', r) \<and>
            outs = out # outs'"
    then obtain self' out outs' where st: "run_step self fr = Inr (self', out)"
      and rest: "run self' ep = (outs', r)" and outs: "outs = out # outs'" by blast
    have ih: "length (filter (\<lambda>out. face_crop out \<noteq> None) outs') \<le> (if snapshot_sent self' then 0 else 1)"
      using Cons.IH [OF _ rest] Cons.prems(1) by simp
    have lk: "lock_state fr = LOCKED" using Cons.prems(1) by simp
    have a: "(face_crop out \<noteq> None) = (\<not> snapshot_sent self \<and> snapshot_sent self')"
      by (rule run_step_snapshot(2) [OF st])
    have b: "(snapshot_sent self \<and> \<not> snapshot_sent self') = (snapshot_sent self \<and> lock_state fr = SEARCHING)"
      by (rule run_step_snapshot(3) [OF st])
    from b lk have c: "snapshot_sent self \<Longrightarrow> snapshot_sent self'" by auto
    show ?thesis
    proof (cases "snapshot_sent self")
      case True
      with a c ih outs show ?thesis by simp
    next
      case False
      with a ih outs show ?thesis by (cases "snapshot_sent self'") auto
    qed
  qed
qed

lemma run_append:
  "run self (xs @ ys) =
     (case run self xs of
        (o1, Inl e) \<Rightarrow> (o1, Inl e)
      | (o1, Inr s1) \<Rightarrow> (case run s1 ys of (o2, r) \<Rightarrow> (o1 @ o2, r)))"
proof (induction xs arbitrary: self)
  case Nil
  then show ?case by (simp split: prod.splits)
next
  case (Cons x xs)
  show ?case
  proof (cases "run_step self x")
    case (Inl e)
    then show ?thesis by simp
  next
    case (Inr p)
    obtain self' out where p: "p = (self', out)" by (cases p)
    show ?thesis
      using Inr p Cons.IH [of self'] by (simp split: prod.splits sum.splits)
  qed
qed

lemma run_length:
  "run self frs = (outs, r) \<Longrightarrow>
     (case r of Inl e \<Rightarrow> length outs < length frs | Inr s \<Rightarrow> length outs = length frs)"
proof (induction frs arbitrary: self outs r)
  case Nil
  then show ?case by auto
next
  case (Cons fr frs)
  from run_Cons_cases [OF Cons.prems] show ?case
  proof
    assume "\<exists>e. run_step self fr = Inl e \<and> outs = [] \<and> r = Inl e"
    then show ?thesis by auto
  next
    assume "\<exists>self' out outs'. run_step self fr = Inr (self', out) \<and> run self' frs = (outs', r) \<and>
            outs = out # outs'"
    then obtain self' out outs' where "run self' frs = (outs', r)" "outs = out # outs'" by blast
    with Cons.IH [of self' outs' r] show ?thesis by (simp split: sum.splits)
  qed
qed

lemma episode_outputs:
  assumes "run self (pre @ ep @ post) = (outs, r)"
  shows "take (length ep) (drop (length pre) outs) = [] \<or>
         (\<exists>s1 r1. take (length ep) (drop (length pre) outs) = fst (run s1 ep))"
proof (cases "run self pre")
  case (Pair o1 r1)
  show ?thesis
  proof (cases r1)
    case (Inl e)
    with Pair assms have "outs = o1" by (simp add: run_append)
    moreover have "length o1 < length pre"
      using run_length [OF Pair] Inl by simp
    ultimately show ?thesis by simp
  next
    case (Inr s1)
    have l1: "length o1 = length pre"
      using run_length [OF Pair] Inr by simp
    obtain o2 r2 where ep: "run s1 ep = (o2, r2)" by (cases "run s1 ep")
    show ?thesis
    proof (cases r2)
      case (Inl e)
      with Pair Inr ep assms have "outs = o1 @ o2"
        by (simp add: run_append)
      moreover have "length o2 < length ep"
        using run_length [OF ep] Inl by simp
      ultimately have "take (length ep) (drop (length pre) outs) = fst (run s1 ep)"
        using l1 ep by simp
      then show ?thesis by blast
    next
      case (Inr s2)
      obtain o3 r3 where post: "run s2 post = (o3, r3)" by (cases "run s2 post")
      with Pair \<open>r1 = Inr s1\<close> ep Inr assms have "outs = o1 @ o2 @ o3"
        by (simp add: run_append)
      moreover have "length o2 = length ep"
        using run_length [OF ep] Inr by simp
      ultimately have "take (length ep) (drop (length pre) outs) = fst (run s1 ep)"
        using l1 ep by simp
      then show ?thesis by blast
    qed
  qed
qed

text \<open>
  Claim C3. The snapshot gate takes no crop on a SEARCHING frame and leaves the flag
  \<open>snapshot_sent\<close> false there; an iteration takes a crop exactly when the flag goes
  from false to true, and the flag goes from true to false exactly on a SEARCHING frame.
  In any sequence of frames, the iterations of a run of LOCKED frames take at most one
  crop between them; and after a SEARCHING frame, a LOCKED frame with a face whose
  iteration completes yields exactly one crop, taken on that LOCKED frame, however many
  LOCKED frames follow. That iteration does complete when the box lies within the frame
  (with the box outside, the crop can be empty and the image encoder raise).
\<close>

theorem snapshot_once_per_episode:
  "(run_step self fr = Inr (self', out) \<longrightarrow>
      (lock_state fr = SEARCHING \<longrightarrow> face_crop out = None \<and> \<not> snapshot_sent self') \<and>
      (face_crop out \<noteq> None) = (\<not> snapshot_sent self \<and> snapshot_sent self') \<and>
      (snapshot_sent self \<and> \<not> snapshot_sent self') = (snapshot_sent self \<and> lock_state fr = SEARCHING)) \<and>
   ((\<forall>fr\<in>set ep. lock_state fr = LOCKED) \<and> run start (pre @ ep @ post) = (outs, r) \<longrightarrow>
      length (filter (\<lambda>out. face_crop out \<noteq> None) (take (length ep) (drop (length pre) outs))) \<le> 1) \<and>
   (lock_state fra = SEARCHING \<and> lock_state frb = LOCKED \<and> target_face frb = Some f \<and>
    (\<forall>fr\<in>set rest. lock_state fr = LOCKED) \<and>
    run before (fra # frb # rest) = (outs', r') \<longrightarrow>
      (2 \<le> length outs' \<longrightarrow>
         face_crop (outs' ! 0) = None \<and>
         face_crop (outs' ! 1) = Some (take_crop (frame_H frb) (frame_W frb) f) \<and>
         length (filter (\<lambda>out. face_crop out \<noteq> None) outs') = 1) \<and>
      (in_frame (frame_H frb) (frame_W frb) f \<longrightarrow> 2 \<le> length outs'))"
proof (intro conjI)
  show "run_step self fr = Inr (self', out) \<longrightarrow>
      (lock_state fr = SEARCHING \<longrightarrow> face_crop out = None \<and> \<not> snapshot_sent self') \<and>
      (face_crop out \<noteq> None) = (\<not> snapshot_sent self \<and> snapshot_sent self') \<and>
      (snapshot_sent self \<and> \<not> snapshot_sent self') = (snapshot_sent self \<and> lock_state fr = SEARCHING)"
    using run_step_snapshot [of self fr self' out] by blast
next
  show "(\<forall>fr\<in>set ep. lock_state fr = LOCKED) \<and> run start (pre @ ep @ post) = (outs, r) \<longrightarrow>
      length (filter (\<lambda>out. face_crop out \<noteq> None) (take (length ep) (drop (length pre) outs))) \<le> 1"
  proof
    assume h: "(\<forall>fr\<in>set ep. lock_state fr = LOCKED) \<and> run start (pre @ ep @ post) = (outs, r)"
    then have "run start (pre @ ep @ post) = (outs, r)" by simp
    from episode_outputs [OF this]
    show "length (filter (\<lambda>out. face_crop out \<noteq> None) (take (length ep) (drop (length pre) outs))) \<le> 1"
    proof
      assume "take (length ep) (drop (length pre) outs) = []"
      then show ?thesis by (simp only: filter.simps list.size)
    next
      assume "\<exists>s1 r1. take (length ep) (drop (length pre) outs) = fst (run s1 ep)"
      then obtain s1 where e: "take (length ep) (drop (length pre) outs) = fst (run s1 ep)" by blast
      obtain o2 r2 where r2: "run s1 ep = (o2, r2)" by (cases "run s1 ep")
      from locked_run_crops [OF _ r2] h
      have "length (filter (\<lambda>out. face_crop out \<noteq> None) o2) \<le> 1"
        by (simp split: if_splits)
      with e r2 show ?thesis by simp
    qed
  qed
next
  show "lock_state fra = SEARCHING \<and> lock_state frb = LOCKED \<and> target_face frb = Some f \<and>
    (\<forall>fr\<in>set rest. lock_state fr = LOCKED) \<and>
    run before (fra # frb # rest) = (outs', r') \<longrightarrow>
      (2 \<le> length outs' \<longrightarrow>
         face_crop (outs' ! 0) = None \<and>
         face_crop (outs' ! 1) = Some (take_crop (frame_H frb) (frame_W frb) f) \<and>
         length (filter (\<lambda>out. face_crop out \<noteq> None) outs') = 1) \<and>
      (in_frame (frame_H frb) (frame_W frb) f \<longrightarrow> 2 \<le> length outs')"
  proof
    assume h: "lock_state fra = SEARCHING \<and> lock_state frb = LOCKED \<and> target_face frb = Some f \<and>
      (\<forall>fr\<in>set rest. lock_state fr = LOCKED) \<and>
      run before (fra # frb # rest) = (outs', r')"
    then have ha: "lock_state fra = SEARCHING" and hb: "lock_state frb = LOCKED"
      and hf: "target_face frb = Some f"
      and hr: "\<forall>fr\<in>set rest. lock_state fr = LOCKED"
      and hrun: "run before (fra # frb # rest) = (outs', r')" by simp_all
    obtain sa oa where a: "run_step before fra = Inr (sa, oa)"
      and ca: "face_crop oa = None" and na: "\<not> snapshot_sent sa"
      using run_step_SEARCHING_fields [OF ha, of before] by blast
    show "(2 \<le> length outs' \<longrightarrow>
         face_crop (outs' ! 0) = None \<and>
         face_crop (outs' ! 1) = Some (take_crop (frame_H frb) (frame_W frb) f) \<and>
         length (filter (\<lambda>out. face_crop out \<noteq> None) outs') = 1) \<and>
      (in_frame (frame_H frb) (frame_W frb) f \<longrightarrow> 2 \<le> length outs')"
    proof (cases "run_step sa frb")
      case (Inl e)
      with hrun a have short: "outs' = [oa]" by simp
      have "\<not> in_frame (frame_H frb) (frame_W frb) f"
        using run_step_in_frame [OF hb hf, of sa] Inl by auto
      with short show ?thesis by simp
    next
      case (Inr p)
      obtain sb ob where p: "p = (sb, ob)" by (cases p)
      with Inr have b: "run_step sa frb = Inr (sb, ob)" by simp
      have cb: "face_crop ob = Some (take_crop (frame_H frb) (frame_W frb) f)"
        using run_step_visible_fields(4) [OF hb hf b] na by simp
      have sb: "snapshot_sent sb"
        using run_step_visible_fields(3) [OF hb hf b] .
      obtain os rr where rest: "run sb rest = (os, rr)" by (cases "run sb rest")
      have "length (filter (\<lambda>out. face_crop out \<noteq> None) os) \<le> 0"
        using locked_run_crops [OF hr rest] sb by simp
      then have none: "filter (\<lambda>out. face_crop out \<noteq> None) os = []" by simp
      have outs: "outs' = oa # ob # os"
        using hrun a b rest by simp
      from outs ca cb none show ?thesis by simp
    qed
  qed
qed


theorem snapshot_once_per_episode_witness:
  "run_step (init_node ''andrew'') (locked_frame (Some example_face) 1001) =
     Inr (rate_limiting ((init_node ''andrew'')\<lparr>snapshot_sent := True\<rparr>)
            (locked_frame (Some example_face) 1001) CENTERED (Some (take_crop 480 640 example_face))) \<and>
   face_crop (snd (rate_limiting ((init_node ''andrew'')\<lparr>snapshot_sent := True\<rparr>)
            (locked_frame (Some example_face) 1001) CENTERED (Some (take_crop 480 640 example_face)))) \<noteq> None \<and>
   length (filter (\<lambda>out. face_crop out \<noteq> None)
     (take (length [locked_frame (Some example_face) 1001, locked_frame (Some left_face) 1002])
        (drop (length [searching_frame 1000])
           (fst (run (init_node ''andrew'')
              ([searching_frame 1000] @
               [locked_frame (Some example_face) 1001, locked_frame (Some left_face) 1002] @
               [searching_frame 1003])))))) \<le> 1 \<and>
   in_frame (frame_H (locked_frame (Some example_face) 1001))
     (frame_W (locked_frame (Some example_face) 1001)) example_face \<and>
   length (filter (\<lambda>out. face_crop out \<noteq> None)
     (fst (run (init_node ''andrew'')
        (searching_frame 1000 # locked_frame (Some example_face) 1001 #
         [locked_frame (Some left_face) 1002])))) = 1"
proof -
  let ?self = "init_node ''andrew''"
  let ?fa = "searching_frame 1000" and ?fb = "locked_frame (Some example_face) 1001"
  let ?fc = "locked_frame (Some left_face) 1002" and ?fd = "searching_frame 1003"
  let ?r = "rate_limiting (?self\<lparr>snapshot_sent := True\<rparr>) ?fb CENTERED
              (Some (take_crop 480 640 example_face))"
  note inst = snapshot_once_per_episode [where self = ?self and fr = ?fb and self' = "fst ?r"
      and out = "snd ?r" and ep = "[?fb, ?fc]" and start = ?self and pre = "[?fa]"
      and post = "[?fd]" and outs = "fst (run ?self ([?fa] @ [?fb, ?fc] @ [?fd]))"
      and r = "snd (run ?self ([?fa] @ [?fb, ?fc] @ [?fd]))"
      and fra = ?fa and frb = ?fb and f = example_face and rest = "[?fc]" and before = ?self
      and outs' = "fst (run ?self (?fa # ?fb # [?fc]))" and r' = "snd (run ?self (?fa # ?fb # [?fc]))"]
  have step: "run_step ?self ?fb = Inr ?r"
    by (simp add: run_step_def publish_gates_def imencode_raises_def slice_length_def
        take_crop_def locked_frame_def init_node_def example_face_def movement_logic_def
        cx_norm_def Let_def)
  then have step': "run_step ?self ?fb = Inr (fst ?r, snd ?r)" by simp
  have a: "face_crop (snd ?r) \<noteq> None"
    using inst [THEN conjunct1, THEN mp, OF step', THEN conjunct2, THEN conjunct1]
    by (simp add: rate_limiting_snapshot_sent init_node_def)
  have b: "length (filter (\<lambda>out. face_crop out \<noteq> None)
     (take (length [?fb, ?fc]) (drop (length [?fa])
        (fst (run ?self ([?fa] @ [?fb, ?fc] @ [?fd])))))) \<le> 1"
  proof (rule inst [THEN conjunct2, THEN conjunct1, THEN mp], intro conjI)
    show "\<forall>fr\<in>set [?fb, ?fc]. lock_state fr = LOCKED"
      by (simp add: locked_frame_def)
    show "run ?self ([?fa] @ [?fb, ?fc] @ [?fd]) =
      (fst (run ?self ([?fa] @ [?fb, ?fc] @ [?fd])), snd (run ?self ([?fa] @ [?fb, ?fc] @ [?fd])))"
      by (rule prod.collapse [symmetric])
  qed
  have third: "(2 \<le> length (fst (run ?self (?fa # ?fb # [?fc]))) \<longrightarrow>
      face_crop (fst (run ?self (?fa # ?fb # [?fc])) ! 0) = None \<and>
      face_crop (fst (run ?self (?fa # ?fb # [?fc])) ! 1) =
        Some (take_crop (frame_H ?fb) (frame_W ?fb) example_face) \<and>
      length (filter (\<lambda>out. face_crop out \<noteq> None) (fst (run ?self (?fa # ?fb # [?fc])))) = 1) \<and>
     (in_frame (frame_H ?fb) (frame_W ?fb) example_face \<longrightarrow>
      2 \<le> length (fst (run ?self (?fa # ?fb # [?fc]))))"
  proof (rule inst [THEN conjunct2, THEN conjunct2, THEN mp], intro conjI)
    show "lock_state ?fa = SEARCHING" by (simp add: searching_frame_def)
    show "lock_state ?fb = LOCKED" by (simp add: locked_frame_def)
    show "target_face ?fb = Some example_face" by (simp add: locked_frame_def)
    show "\<forall>fr\<in>set [?fc]. lock_state fr = LOCKED" by (simp add: locked_frame_def)
    show "run ?self (?fa # ?fb # [?fc]) =
      (fst (run ?self (?fa # ?fb # [?fc])), snd (run ?self (?fa # ?fb # [?fc])))"
      by (rule prod.collapse [symmetric])
  qed
  have inside: "in_frame (frame_H ?fb) (frame_W ?fb) example_face"
    by (simp add: in_frame_def locked_frame_def example_face_def)
  have two: "2 \<le> length (fst (run ?self (?fa # ?fb # [?fc])))"
    by (rule third [THEN conjunct2, THEN mp, OF inside])
  have c: "length (filter (\<lambda>out. face_crop out \<noteq> None)
      (fst (run ?self (?fa # ?fb # [?fc])))) = 1"
    using third [THEN conjunct1, THEN mp, OF two] by blast
  show ?thesis by (intro conjI step a b inside c)
qed

section \<open>Publish scheduler\<close>

lemma run_step_admitted:
  assumes "run_step self fr = Inr (self', out)"
  shows "(movement out \<noteq> None) = (current_time fr - last_publish_time self \<ge> 0.1)"
    and "movement out \<noteq> None \<Longrightarrow> last_publish_time self' = current_time fr"
    and "movement out = None \<Longrightarrow> last_publish_time self' = last_publish_time self"
proof -
  show a: "(movement out \<noteq> None) = (current_time fr - last_publish_time self \<ge> 0.1)"
    by (simp add: run_step_gates(1) [OF assms])
  show "movement out \<noteq> None \<Longrightarrow> last_publish_time self' = current_time fr"
    using a by (simp add: run_step_gates(2) [OF assms])
  show "movement out = None \<Longrightarrow> last_publish_time self' = last_publish_time self"
    using a by (simp add: run_step_gates(2) [OF assms])
qed

lemma no_publish_within_tenth:
  assumes "\<forall>fr\<in>set frs. current_time fr < last_publish_time self + 0.1"
    and "run self frs = (outs, r)"
  shows "filter (\<lambda>out. movement out \<noteq> None) outs = []"
  using assms
proof (induction frs arbitrary: self outs r)
  case Nil
  then show ?case by auto
next
  case (Cons fr frs)
  from run_Cons_cases [OF Cons.prems(2)] show ?case
  proof
    assume "\<exists>e. run_step self fr = Inl e \<and> outs = [] \<and> r = Inl e"
    then show ?thesis by auto
  next
    assume "\<exists>self' out outs'. run_step self fr = Inr (self', out) \<and> run self' frs = (outs', r) \<and>
            outs = out # outs'"
    then obtain self' out outs' where st: "run_step self fr = Inr (self', out)"
      and rest: "run self' frs = (outs', r)" and outs: "outs = out # outs'" by blast
    have "current_time fr < last_publish_time self + 0.1"
      using Cons.prems(1) by simp
    then have no: "movement out = None"
      using run_step_admitted(1) [OF st] by auto
    then have "last_publish_time self' = last_publish_time self"
      by (rule run_step_admitted(3) [OF st])
    with Cons.prems(1) have "\<forall>fr\<in>set frs. current_time fr < last_publish_time self' + 0.1"
      by simp
    from Cons.IH [OF this rest] no outs show ?thesis by simp
  qed
qed

lemma one_publish_within_two_tenths:
  assumes "\<forall>fr\<in>set frs. current_time fr < hi" and "hi \<le> last_publish_time self + 0.2"
    and "run self frs = (outs, r)"
  shows "length (filter (\<lambda>out. movement out \<noteq> None) outs) \<le> 1"
  using assms
proof (induction frs arbitrary: self outs r)
  case Nil
  then show ?case by auto
next
  case (Cons fr frs)
  from run_Cons_cases [OF Cons.prems(3)] show ?case
  proof
    assume "\<exists>e. run_step self fr = Inl e \<and> outs = [] \<and> r = Inl e"
    then show ?thesis by auto
  next
    assume "\<exists>self' out outs'. run_step self fr = Inr (self', out) \<and> run self' frs = (outs', r) \<and>
            outs = out # outs'"
    then obtain self' out outs' where st: "run_step self fr = Inr (self', out)"
      and rest: "run self' frs = (outs', r)" and outs: "outs = out # outs'" by blast
    have later: "\<forall>fr\<in>set frs. current_time fr < hi"
      using Cons.prems(1) by simp
    show ?thesis
    proof (cases "movement out = None")
      case True
      then have "last_publish_time self' = last_publish_time self"
        by (rule run_step_admitted(3) [OF st])
      with Cons.prems(2) have "hi \<le> last_publish_time self' + 0.2" by simp
      from Cons.IH [OF later this rest] True outs show ?thesis by simp
    next
      case False
      then have "last_publish_time self' = current_time fr"
        by (rule run_step_admitted(2) [OF st])
      moreover have "current_time fr - last_publish_time self \<ge> 0.1"
        using run_step_admitted(1) [OF st] False by simp
      ultimately have "hi \<le> last_publish_time self' + 0.1"
        using Cons.prems(2) by simp
      with later have "\<forall>fr\<in>set frs. current_time fr < last_publish_time self' + 0.1"
        by auto
      from no_publish_within_tenth [OF this rest] outs show ?thesis by simp
    qed
  qed
qed

lemma two_publishes_in_window:
  assumes "\<forall>fr\<in>set frs. lo \<le> current_time fr \<and> current_time fr < lo + 0.2"
    and "run self frs = (outs, r)"
  shows "length (filter (\<lambda>out. movement out \<noteq> None) outs) \<le> 2"
  using assms
proof (induction frs arbitrary: self outs r)
  case Nil
  then show ?case by auto
next
  case (Cons fr frs)
  from run_Cons_cases [OF Cons.prems(2)] show ?case
  proof
    assume "\<exists>e. run_step self fr = Inl e \<and> outs = [] \<and> r = Inl e"
    then show ?thesis by auto
  next
    assume "\<exists>self' out outs'. run_step self fr = Inr (self', out) \<and> run self' frs = (outs', r) \<and>
            outs = out # outs'"
    then obtain self' out outs' where st: "run_step self fr = Inr (self', out)"
      and rest: "run self' frs = (outs', r)" and outs: "outs = out # outs'" by blast
    have later: "\<forall>fr\<in>set frs. lo \<le> current_time fr \<and> current_time fr < lo + 0.2"
      using Cons.prems(1) by simp
    show ?thesis
    proof (cases "movement out = None")
      case True
      from Cons.IH [OF later rest] True outs show ?thesis by simp
    next
      case False
      then have "last_publish_time self' = current_time fr"
        by (rule run_step_admitted(2) [OF st])
      moreover have "lo \<le> current_time fr"
        using Cons.prems(1) by simp
      ultimately have "lo + 0.2 \<le> last_publish_time self' + 0.2" by simp
      moreover from later have "\<forall>fr\<in>set frs. current_time fr < lo + 0.2" by simp
      ultimately have "length (filter (\<lambda>out. movement out \<noteq> None) outs') \<le> 1"
        using one_publish_within_two_tenths [OF _ _ rest] by blast
      with outs show ?thesis by simp
    qed
  qed
qed

text \<open>
  Claim C4. An iteration publishes a movement message exactly when the clock reading
  \<open>current_time\<close> minus \<open>last_publish_time\<close> is at least \<open>0.1\<close>; when it publishes it
  stores that reading in \<open>last_publish_time\<close>, and otherwise leaves it unchanged.
  Consequently, over frames that arrive every 10 ms within a window of 200 ms (at most
  twenty frames, at \<open>t0\<close>, \<open>t0 + 0.01\<close>, ...), at most two movement messages are
  published, from any starting state.
\<close>

theorem movement_rate_gate:
  "(run_step self fr = Inr (self', out) \<longrightarrow>
      (movement out \<noteq> None) = (current_time fr - last_publish_time self \<ge> 0.1) \<and>
      (movement out \<noteq> None \<longrightarrow> last_publish_time self' = current_time fr) \<and>
      (movement out = None \<longrightarrow> last_publish_time self' = last_publish_time self)) \<and>
   (length frs \<le> 20 \<and> (\<forall>k<length frs. current_time (frs ! k) = t0 + real k * 0.01) \<and>
    run start frs = (outs, r) \<longrightarrow>
      length (filter (\<lambda>out. movement out \<noteq> None) outs) \<le> 2)"
proof (intro conjI impI)
  assume st: "run_step self fr = Inr (self', out)"
  show "(movement out \<noteq> None) = (current_time fr - last_publish_time self \<ge> 0.1)"
    by (rule run_step_admitted(1) [OF st])
  show "last_publish_time self' = current_time fr" if "movement out \<noteq> None"
    using that by (rule run_step_admitted(2) [OF st])
  show "last_publish_time self' = last_publish_time self" if "movement out = None"
    using that by (rule run_step_admitted(3) [OF st])
next
  assume h: "length frs \<le> 20 \<and> (\<forall>k<length frs. current_time (frs ! k) = t0 + real k * 0.01) \<and>
    run start frs = (outs, r)"
  have "\<forall>fr\<in>set frs. t0 \<le> current_time fr \<and> current_time fr < t0 + 0.2"
  proof
    fix fr assume "fr \<in> set frs"
    then obtain k where k: "k < length frs" and fr: "fr = frs ! k"
      by (auto simp: in_set_conv_nth)
    with h have t: "current_time fr = t0 + real k * 0.01" by simp
    from k h have "k < 20" by simp
    then have "real k < 20" by simp
    with t show "t0 \<le> current_time fr \<and> current_time fr < t0 + 0.2" by simp
  qed
  moreover from h have "run start frs = (outs, r)" by simp
  ultimately show "length (filter (\<lambda>out. movement out \<noteq> None) outs) \<le> 2"
    by (rule two_publishes_in_window)
qed


theorem movement_rate_gate_witness:
  "run_step (init_node ''andrew'') (searching_frame 1000) =
     Inr (rate_limiting (init_node ''andrew'') (searching_frame 1000) NO_FACE None) \<and>
   movement (snd (rate_limiting (init_node ''andrew'') (searching_frame 1000) NO_FACE None)) \<noteq> None \<and>
   last_publish_time (fst (rate_limiting (init_node ''andrew'') (searching_frame 1000) NO_FACE None)) = 1000 \<and>
   length (ten_ms_frames 1000 20) \<le> 20 \<and>
   length (filter (\<lambda>out. movement out \<noteq> None)
     (fst (run (init_node ''andrew'') (ten_ms_frames 1000 20)))) \<le> 2"
proof -
  let ?self = "init_node ''andrew''"
  let ?fr = "searching_frame 1000"
  let ?r = "rate_limiting ?self ?fr NO_FACE None"
  let ?frs = "ten_ms_frames 1000 20"
  note inst = movement_rate_gate [where self = ?self and fr = ?fr and self' = "fst ?r"
      and out = "snd ?r" and frs = ?frs and ?t0.0 = 1000 and start = ?self
      and outs = "fst (run ?self ?frs)" and r = "snd (run ?self ?frs)"]
  have step: "run_step ?self ?fr = Inr ?r"
    by (simp add: run_step_def publish_gates_def imencode_raises_def slice_length_def
        take_crop_def searching_frame_def init_node_def)
  then have step': "run_step ?self ?fr = Inr (fst ?r, snd ?r)" by simp
  note gate = inst [THEN conjunct1, THEN mp, OF step']
  have a: "movement (snd ?r) \<noteq> None"
    using gate [THEN conjunct1] by (simp add: searching_frame_def init_node_def)
  have b: "last_publish_time (fst ?r) = 1000"
    using gate [THEN conjunct2, THEN conjunct1, THEN mp, OF a] by (simp add: searching_frame_def)
  have len: "length ?frs \<le> 20" by (simp add: ten_ms_frames_def)
  have c: "length (filter (\<lambda>out. movement out \<noteq> None) (fst (run ?self ?frs))) \<le> 2"
  proof (rule inst [THEN conjunct2, THEN mp], intro conjI)
    show "length ?frs \<le> 20" by (rule len)
    show "\<forall>k<length ?frs. current_time (?frs ! k) = 1000 + real k * 0.01"
      by (simp add: ten_ms_frames_def searching_frame_def)
    show "run ?self ?frs = (fst (run ?self ?frs), snd (run ?self ?frs))"
      by (rule prod.collapse [symmetric])
  qed
  show ?thesis by (intro conjI step a b len c)
qed

text \<open>
  The bound is about frames inside the window: with a twenty-first frame exactly 200 ms
  after the first, the gate admits that frame as well.
\<close>

lemma three_publishes_with_both_ends:
  "length (filter (\<lambda>out. movement out \<noteq> None)
     (fst (run (init_node ''andrew'') (ten_ms_frames 1000 21)))) = 3"
  by (simp add: ten_ms_frames_def searching_frame_def run_step_def publish_gates_no_image
      rate_limiting_def init_node_def upt_rec [of _ "numeral _"] Let_def)

section \<open>Heartbeat\<close>

lemma run_step_heartbeat:
  assumes "run_step self fr = Inr (self', out)"
  shows "heartbeat out = (heartbeat_check_time fr - last_heartbeat self > 5)"
    and "heartbeat out \<Longrightarrow> last_heartbeat self' = heartbeat_set_time fr"
    and "\<not> heartbeat out \<Longrightarrow> last_heartbeat self' = last_heartbeat self"
proof -
  show a: "heartbeat out = (heartbeat_check_time fr - last_heartbeat self > 5)"
    by (rule run_step_gates(3) [OF assms])
  show "heartbeat out \<Longrightarrow> last_heartbeat self' = heartbeat_set_time fr"
    using a by (simp add: run_step_gates(4) [OF assms])
  show "\<not> heartbeat out \<Longrightarrow> last_heartbeat self' = last_heartbeat self"
    using a by (simp add: run_step_gates(4) [OF assms])
qed

lemma quiet_frames:
  assumes "\<forall>fr\<in>set frs. heartbeat_check_time fr - last_heartbeat self \<le> 5"
    and "run self frs = (outs, r)"
  shows "filter heartbeat outs = [] \<and> (\<forall>s. r = Inr s \<longrightarrow> last_heartbeat s = last_heartbeat self)"
  using assms
proof (induction frs arbitrary: self outs r)
  case Nil
  then show ?case by auto
next
  case (Cons fr frs)
  from run_Cons_cases [OF Cons.prems(2)] show ?case
  proof
    assume "\<exists>e. run_step self fr = Inl e \<and> outs = [] \<and> r = Inl e"
    then show ?thesis by auto
  next
    assume "\<exists>self' out outs'. run_step self fr = Inr (self', out) \<and> run self' frs = (outs', r) \<and>
            outs = out # outs'"
    then obtain self' out outs' where st: "run_step self fr = Inr (self', out)"
      and rest: "run self' frs = (outs', r)" and outs: "outs = out # outs'" by blast
    have "heartbeat_check_time fr - last_heartbeat self \<le> 5"
      using Cons.prems(1) by simp
    then have no: "\<not> heartbeat out"
      using run_step_heartbeat(1) [OF st] by simp
    then have same: "last_heartbeat self' = last_heartbeat self"
      by (rule run_step_heartbeat(3) [OF st])
    with Cons.prems(1) have "\<forall>fr\<in>set frs. heartbeat_check_time fr - last_heartbeat self' \<le> 5"
      by simp
    from Cons.IH [OF this rest] no outs same show ?thesis by simp
  qed
qed

lemma run_snoc:
  assumes "run self (frs @ [fr]) = (outs, Inr s)"
  shows "\<exists>o1 s1 out. run self frs = (o1, Inr s1) \<and> run_step s1 fr = Inr (s, out) \<and> outs = o1 @ [out]"
proof (cases "run self frs")
  case (Pair o1 r1)
  show ?thesis
  proof (cases r1)
    case (Inl e)
    with Pair assms show ?thesis by (simp add: run_append)
  next
    case (Inr s1)
    show ?thesis
    proof (cases "run_step s1 fr")
      case (Inl e)
      with Pair \<open>r1 = Inr s1\<close> assms show ?thesis by (simp add: run_append)
    next
      case (Inr p)
      obtain s' out where p: "p = (s', out)" by (cases p)
      from Pair \<open>r1 = Inr s1\<close> Inr p assms show ?thesis by (simp add: run_append)
    qed
  qed
qed

lemma run_searching_returns:
  "\<forall>fr\<in>set frs. lock_state fr = SEARCHING \<Longrightarrow> \<exists>outs s. run self frs = (outs, Inr s)"
proof (induction frs arbitrary: self)
  case Nil
  then show ?case by simp
next
  case (Cons fr frs)
  then have "lock_state fr = SEARCHING" by simp
  then obtain s' out where st: "run_step self fr = Inr (s', out)"
    using run_step_SEARCHING_fields [of fr self] by blast
  from Cons have "\<exists>outs s. run s' frs = (outs, Inr s)" by simp
  then obtain outs s where "run s' frs = (outs, Inr s)" by blast
  with st have "run self (fr # frs) = (out # outs, Inr s)" by simp
  then show ?case by blast
qed

text \<open>
  Claim C5, as the code has it. \<^verbatim>\<open>on_connect\<close> publishes exactly one heartbeat and
  leaves the state, \<open>last_heartbeat\<close> included, as it was. In the loop an iteration
  publishes a heartbeat exactly when the clock reading minus \<open>last_heartbeat\<close> exceeds
  \<open>5\<close>, and then stores the clock in \<open>last_heartbeat\<close>. So while the readings stay
  within 5 seconds of \<open>last_heartbeat\<close> no heartbeat is published, and the first frame
  beyond publishes exactly one: the five seconds count from \<open>last_heartbeat\<close> (zero at
  start, then the last heartbeat of the loop), not from the heartbeat of \<^verbatim>\<open>on_connect\<close>.
\<close>

theorem heartbeat_gate:
  "on_connect self now = (self, [heartbeat_payload now]) \<and>
   (run_step self fr = Inr (self', out) \<longrightarrow>
      heartbeat out = (heartbeat_check_time fr - last_heartbeat self > 5) \<and>
      (heartbeat out \<longrightarrow> last_heartbeat self' = heartbeat_set_time fr) \<and>
      (\<not> heartbeat out \<longrightarrow> last_heartbeat self' = last_heartbeat self)) \<and>
   ((\<forall>fr\<in>set frs. heartbeat_check_time fr - last_heartbeat start \<le> 5) \<and>
    run start frs = (outs, r) \<longrightarrow> filter heartbeat outs = []) \<and>
   ((\<forall>fr\<in>set frs. heartbeat_check_time fr - last_heartbeat start \<le> 5) \<and>
    heartbeat_check_time late - last_heartbeat start > 5 \<and>
    run start (frs @ [late]) = (outs', Inr final) \<longrightarrow>
      length (filter heartbeat outs') = 1 \<and> heartbeat (last outs') \<and>
      last_heartbeat final = heartbeat_set_time late)"
proof (intro conjI impI)
  show "on_connect self now = (self, [heartbeat_payload now])"
    by (simp add: on_connect_def)
next
  assume st: "run_step self fr = Inr (self', out)"
  show "heartbeat out = (heartbeat_check_time fr - last_heartbeat self > 5)"
    by (rule run_step_heartbeat(1) [OF st])
  show "last_heartbeat self' = heartbeat_set_time fr" if "heartbeat out"
    using that by (rule run_step_heartbeat(2) [OF st])
  show "last_heartbeat self' = last_heartbeat self" if "\<not> heartbeat out"
    using that by (rule run_step_heartbeat(3) [OF st])
next
  assume "(\<forall>fr\<in>set frs. heartbeat_check_time fr - last_heartbeat start \<le> 5) \<and>
    run start frs = (outs, r)"
  then have q: "\<forall>fr\<in>set frs. heartbeat_check_time fr - last_heartbeat start \<le> 5"
    and rn: "run start frs = (outs, r)" by simp_all
  from quiet_frames [OF q rn] show "filter heartbeat outs = []" by simp
next
  assume h: "(\<forall>fr\<in>set frs. heartbeat_check_time fr - last_heartbeat start \<le> 5) \<and>
    heartbeat_check_time late - last_heartbeat start > 5 \<and>
    run start (frs @ [late]) = (outs', Inr final)"
  then have q: "\<forall>fr\<in>set frs. heartbeat_check_time fr - last_heartbeat start \<le> 5"
    and lt: "heartbeat_check_time late - last_heartbeat start > 5"
    and rn: "run start (frs @ [late]) = (outs', Inr final)" by simp_all
  obtain o1 s1 out where r1: "run start frs = (o1, Inr s1)"
    and st: "run_step s1 late = Inr (final, out)" and outs: "outs' = o1 @ [out]"
    using run_snoc [OF rn] by blast
  from quiet_frames [OF q r1] have none: "filter heartbeat o1 = []"
    and same: "last_heartbeat s1 = last_heartbeat start" by simp_all
  have hb: "heartbeat out"
    using run_step_heartbeat(1) [OF st] lt same by simp
  from run_step_heartbeat(2) [OF st hb]
  show "last_heartbeat final = heartbeat_set_time late" .
  from outs none hb
  show "length (filter heartbeat outs') = 1" and "heartbeat (last outs')" by simp_all
qed

theorem heartbeat_gate_witness:
  "run_step (init_node ''andrew'') (searching_frame 1001) =
     Inr (rate_limiting (init_node ''andrew'') (searching_frame 1001) NO_FACE None) \<and>
   heartbeat (snd (rate_limiting (init_node ''andrew'') (searching_frame 1001) NO_FACE None)) \<and>
   last_heartbeat (fst (rate_limiting (init_node ''andrew'') (searching_frame 1001) NO_FACE None)) = 1001 \<and>
   filter heartbeat (fst (run ((init_node ''andrew'')\<lparr>last_heartbeat := 1001\<rparr>)
      [searching_frame 1002, searching_frame 1006])) = [] \<and>
   length (filter heartbeat (fst (run ((init_node ''andrew'')\<lparr>last_heartbeat := 1001\<rparr>)
      ([searching_frame 1002, searching_frame 1006] @ [searching_frame 1007])))) = 1"
proof -
  let ?self = "init_node ''andrew''"
  let ?fr = "searching_frame 1001"
  let ?r = "rate_limiting ?self ?fr NO_FACE None"
  let ?start = "?self\<lparr>last_heartbeat := 1001\<rparr>"
  let ?frs = "[searching_frame 1002, searching_frame 1006]"
  let ?late = "searching_frame 1007"
  have step: "run_step ?self ?fr = Inr ?r"
    by (simp add: run_step_def publish_gates_def imencode_raises_def slice_length_def
        take_crop_def searching_frame_def init_node_def)
  then have step': "run_step ?self ?fr = Inr (fst ?r, snd ?r)" by simp
  note gate = heartbeat_gate [where self = ?self and fr = ?fr and self' = "fst ?r" and out = "snd ?r",
      THEN conjunct2, THEN conjunct1, THEN mp, OF step']
  have a: "heartbeat (snd ?r)"
    using gate [THEN conjunct1] by (simp add: searching_frame_def init_node_def)
  have b: "last_heartbeat (fst ?r) = 1001"
    using gate [THEN conjunct2, THEN conjunct1, THEN mp, OF a] by (simp add: searching_frame_def)
  have quiet: "\<forall>fr\<in>set ?frs. heartbeat_check_time fr - last_heartbeat ?start \<le> 5"
    by (simp add: searching_frame_def)
  have c: "filter heartbeat (fst (run ?start ?frs)) = []"
  proof (rule heartbeat_gate [where start = ?start and frs = ?frs and outs = "fst (run ?start ?frs)"
        and r = "snd (run ?start ?frs)", THEN conjunct2, THEN conjunct2, THEN conjunct1, THEN mp],
      intro conjI)
    show "\<forall>fr\<in>set ?frs. heartbeat_check_time fr - last_heartbeat ?start \<le> 5" by (rule quiet)
    show "run ?start ?frs = (fst (run ?start ?frs), snd (run ?start ?frs))"
      by (rule prod.collapse [symmetric])
  qed
  have "\<forall>fr\<in>set (?frs @ [?late]). lock_state fr = SEARCHING"
    by (simp add: searching_frame_def)
  from run_searching_returns [OF this, of ?start]
  obtain outs' final where rn: "run ?start (?frs @ [?late]) = (outs', Inr final)"
    by blast
  have "length (filter heartbeat outs') = 1 \<and> heartbeat (last outs') \<and>
      last_heartbeat final = heartbeat_set_time ?late"
  proof (rule heartbeat_gate [where start = ?start and frs = ?frs and late = ?late
        and outs' = outs' and final = final,
        THEN conjunct2, THEN conjunct2, THEN conjunct2, THEN mp], intro conjI)
    show "\<forall>fr\<in>set ?frs. heartbeat_check_time fr - last_heartbeat ?start \<le> 5" by (rule quiet)
    show "heartbeat_check_time ?late - last_heartbeat ?start > 5"
      by (simp add: searching_frame_def)
    show "run ?start (?frs @ [?late]) = (outs', Inr final)" by (rule rn)
  qed
  then have "length (filter heartbeat outs') = 1" by (elim conjE)
  then have d: "length (filter heartbeat (fst (run ?start (?frs @ [?late])))) = 1"
    by (simp only: rn fst_conv)
  show ?thesis by (intro conjI step a b c d)
qed

text \<open>
  The claim as stated fails: the node connects at clock 1000 and publishes the connect-time
  heartbeat; the first frame, one second later, publishes a heartbeat again, since
  \<open>last_heartbeat\<close> is still zero.
\<close>

theorem heartbeat_after_connect_counterexample:
  "on_connect (init_node ''andrew'') 1000 = (init_node ''andrew'', [heartbeat_payload 1000]) \<and>
   run_step (fst (on_connect (init_node ''andrew'') 1000)) (searching_frame 1001) =
     Inr (rate_limiting (init_node ''andrew'') (searching_frame 1001) NO_FACE None) \<and>
   heartbeat (snd (rate_limiting (init_node ''andrew'') (searching_frame 1001) NO_FACE None)) \<and>
   heartbeat_check_time (searching_frame 1001) - 1000 \<le> 5"
  by (simp add: on_connect_def run_step_def publish_gates_no_image rate_limiting_heartbeat)
    (simp add: init_node_def searching_frame_def publish_gates_no_image)

section \<open>Camera acquisition\<close>

lemma open_camera_loop_eq:
  "open_camera_loop opens indices rest =
     (if opens 0 \<and> rest \<noteq> [] then Inr 0 else Inl (RuntimeError indices))"
  by (induction rest) simp_all

text \<open>
  Claim C6. \<^verbatim>\<open>_open_any_camera\<close> does not probe the index it is trying: every turn probes
  device 0. With only device 1 available and the indices 0, 1, 2, 3 it raises the
  \<^verbatim>\<open>RuntimeError\<close> (which does report the whole list); in general it returns the capture
  of device 0 when that opens and the list is not empty, and raises otherwise.
\<close>

theorem open_any_camera_probes_index_zero:
  "open_any_camera (\<lambda>idx. idx = 1) [0, 1, 2, 3] = Inl (RuntimeError [0, 1, 2, 3]) \<and>
   open_any_camera opens indices =
     (if opens 0 \<and> indices \<noteq> [] then Inr 0 else Inl (RuntimeError indices))"
  by (simp add: open_any_camera_def open_camera_loop_eq)

section \<open>Snapshot and rate limit together\<close>

lemma run_outs_image:
  assumes "run self frs = (outs, r)"
  shows "\<forall>out\<in>set outs. \<forall>c. movement out = Some c \<longrightarrow> call_face_image c = face_crop out"
  using assms
proof (induction frs arbitrary: self outs r)
  case Nil
  then show ?case by auto
next
  case (Cons fr frs)
  from run_Cons_cases [OF Cons.prems] show ?case
  proof
    assume "\<exists>e. run_step self fr = Inl e \<and> outs = [] \<and> r = Inl e"
    then show ?thesis by auto
  next
    assume "\<exists>self' out outs'. run_step self fr = Inr (self', out) \<and> run self' frs = (outs', r) \<and>
            outs = out # outs'"
    then obtain self' out outs' where st: "run_step self fr = Inr (self', out)"
      and rest: "run self' frs = (outs', r)" and outs: "outs = out # outs'" by blast
    have "\<forall>c. movement out = Some c \<longrightarrow> call_face_image c = face_crop out"
      using run_step_gates(1) [OF st] by (auto split: if_splits)
    with Cons.IH [OF rest] outs show ?thesis by simp
  qed
qed

lemma no_image_after_snapshot:
  assumes "snapshot_sent self" and "\<forall>fr\<in>set rest. lock_state fr = LOCKED"
    and "run self rest = (outs, r)"
  shows "\<forall>out\<in>set outs. \<forall>c. movement out = Some c \<longrightarrow> call_face_image c = None"
proof -
  have "length (filter (\<lambda>out. face_crop out \<noteq> None) outs) \<le> 0"
    using locked_run_crops [OF assms(2,3)] assms(1) by simp
  then have "filter (\<lambda>out. face_crop out \<noteq> None) outs = []" by simp
  then have "\<forall>out\<in>set outs. face_crop out = None"
    by (simp add: filter_empty_conv)
  with run_outs_image [OF assms(3)] show ?thesis by simp
qed

text \<open>
  Claim C10. A movement message carries an image only if the crop was taken in the same
  iteration and the rate limit admitted that iteration. And there is an execution from
  the initial state in which the crop is taken on an iteration the rate limit rejects:
  the flag \<open>snapshot_sent\<close> is true afterwards, no message so far carried an image, and
  no message of any continuation by LOCKED frames carries one.
\<close>

theorem snapshot_lost_when_gate_rejects:
  "(run_step self fr = Inr (self', out) \<and> movement out = Some c \<and> call_face_image c = Some img \<longrightarrow>
      face_crop out = Some img \<and> current_time fr - last_publish_time self \<ge> 0.1) \<and>
   (\<exists>frs outs mid.
      run (init_node name) frs = (outs, Inr mid) \<and>
      face_crop (last outs) \<noteq> None \<and> movement (last outs) = None \<and> snapshot_sent mid \<and>
      (\<forall>out\<in>set outs. \<forall>c. movement out = Some c \<longrightarrow> call_face_image c = None) \<and>
      (\<forall>rest outs' r. (\<forall>fr\<in>set rest. lock_state fr = LOCKED) \<and> run mid rest = (outs', r) \<longrightarrow>
         (\<forall>out\<in>set outs'. \<forall>c. movement out = Some c \<longrightarrow> call_face_image c = None)))"
proof (intro conjI impI)
  assume h: "run_step self fr = Inr (self', out) \<and> movement out = Some c \<and> call_face_image c = Some img"
  then have st: "run_step self fr = Inr (self', out)" and m: "movement out = Some c"
    and i: "call_face_image c = Some img" by simp_all
  from run_step_gates(1) [OF st] m i
  show "face_crop out = Some img" and "current_time fr - last_publish_time self \<ge> 0.1"
    by (auto split: if_splits)
next
  let ?fa = "searching_frame 1000" and ?fb = "locked_frame (Some example_face) 1000.05"
  obtain sa oa where a: "run_step (init_node name) ?fa = Inr (sa, oa)"
    and na: "\<not> snapshot_sent sa" and ca: "face_crop oa = None"
    using run_step_SEARCHING_fields [of ?fa "init_node name"] by (auto simp: searching_frame_def)
  have pa: "last_publish_time sa = 1000"
    using run_step_gates(2) [OF a] by (simp add: searching_frame_def init_node_def)
  have lb: "lock_state ?fb = LOCKED" "target_face ?fb = Some example_face"
    "in_frame (frame_H ?fb) (frame_W ?fb) example_face"
    by (simp_all add: locked_frame_def in_frame_def example_face_def)
  obtain sb ob where b: "run_step sa ?fb = Inr (sb, ob)"
    using run_step_in_frame [OF lb, of sa] by blast
  have cb: "face_crop ob \<noteq> None"
    using run_step_visible_fields(4) [OF lb(1,2) b] na by simp
  have sb: "snapshot_sent sb"
    by (rule run_step_visible_fields(3) [OF lb(1,2) b])
  have mb: "movement ob = None"
    using run_step_gates(1) [OF b] pa by (simp add: locked_frame_def)
  have rn: "run (init_node name) [?fa, ?fb] = ([oa, ob], Inr sb)"
    using a b by simp
  have "\<forall>out\<in>set [oa, ob]. \<forall>c. movement out = Some c \<longrightarrow> call_face_image c = None"
    using run_outs_image [OF rn] ca mb by simp
  moreover have "\<forall>rest outs' r. (\<forall>fr\<in>set rest. lock_state fr = LOCKED) \<and> run sb rest = (outs', r) \<longrightarrow>
         (\<forall>out\<in>set outs'. \<forall>c. movement out = Some c \<longrightarrow> call_face_image c = None)"
    using no_image_after_snapshot [OF sb] by blast
  ultimately show "\<exists>frs outs mid.
      run (init_node name) frs = (outs, Inr mid) \<and>
      face_crop (last outs) \<noteq> None \<and> movement (last outs) = None \<and> snapshot_sent mid \<and>
      (\<forall>out\<in>set outs. \<forall>c. movement out = Some c \<longrightarrow> call_face_image c = None) \<and>
      (\<forall>rest outs' r. (\<forall>fr\<in>set rest. lock_state fr = LOCKED) \<and> run mid rest = (outs', r) \<longrightarrow>
         (\<forall>out\<in>set outs'. \<forall>c. movement out = Some c \<longrightarrow> call_face_image c = None))"
    using rn cb mb sb by (intro exI [of _ "[?fa, ?fb]"] exI [of _ "[oa, ob]"] exI [of _ sb]) simp
qed

theorem snapshot_lost_when_gate_rejects_witness:
  "run_step (init_node ''andrew'') (locked_frame (Some example_face) 1000) =
     Inr (rate_limiting ((init_node ''andrew'')\<lparr>snapshot_sent := True\<rparr>)
            (locked_frame (Some example_face) 1000) CENTERED (Some (take_crop 480 640 example_face))) \<and>
   movement (snd (rate_limiting ((init_node ''andrew'')\<lparr>snapshot_sent := True\<rparr>)
            (locked_frame (Some example_face) 1000) CENTERED (Some (take_crop 480 640 example_face)))) =
     Some \<lparr>call_status = CENTERED, call_confidence = 1.0, call_target = Some ''andrew'',
           call_locked = True, call_face_image = Some (take_crop 480 640 example_face)\<rparr> \<and>
   face_crop (snd (rate_limiting ((init_node ''andrew'')\<lparr>snapshot_sent := True\<rparr>)
            (locked_frame (Some example_face) 1000) CENTERED (Some (take_crop 480 640 example_face)))) =
     Some (take_crop 480 640 example_face) \<and>
   current_time (locked_frame (Some example_face) 1000) - last_publish_time (init_node ''andrew'') \<ge> 0.1"
proof -
  let ?self = "init_node ''andrew''"
  let ?fr = "locked_frame (Some example_face) 1000"
  let ?r = "rate_limiting (?self\<lparr>snapshot_sent := True\<rparr>) ?fr CENTERED
              (Some (take_crop 480 640 example_face))"
  let ?c = "\<lparr>call_status = CENTERED, call_confidence = 1.0, call_target = Some ''andrew'',
           call_locked = True, call_face_image = Some (take_crop 480 640 example_face)\<rparr>"
  have step: "run_step ?self ?fr = Inr ?r"
    by (simp add: run_step_def publish_gates_def imencode_raises_def slice_length_def
        take_crop_def locked_frame_def init_node_def example_face_def movement_logic_def
        cx_norm_def Let_def)
  then have step': "run_step ?self ?fr = Inr (fst ?r, snd ?r)" by simp
  have m: "movement (snd ?r) = Some ?c"
    by (simp add: rate_limiting_movement locked_frame_def init_node_def)
  have i: "call_face_image ?c = Some (take_crop 480 640 example_face)" by simp
  have "face_crop (snd ?r) = Some (take_crop 480 640 example_face) \<and>
      current_time ?fr - last_publish_time ?self \<ge> 0.1"
    by (rule snapshot_lost_when_gate_rejects [where self = ?self and fr = ?fr and self' = "fst ?r"
        and out = "snd ?r" and c = ?c and img = "take_crop 480 640 example_face",
        THEN conjunct1, THEN mp]) (intro conjI step' m i)
  then have a: "face_crop (snd ?r) = Some (take_crop 480 640 example_face)"
    and b: "current_time ?fr - last_publish_time ?self \<ge> 0.1" by blast+
  show ?thesis by (intro conjI step m a b)
qed

section \<open>Base64 round trip\<close>

lemma distinct_alphabet: "distinct b64_alphabet"
  by (simp add: b64_alphabet_def)

lemma length_alphabet: "length b64_alphabet = 64"
  by (simp add: b64_alphabet_def)

lemma index_of_nth: "distinct xs \<Longrightarrow> n < length xs \<Longrightarrow> index_of (xs ! n) xs = Some n"
proof (induction xs arbitrary: n)
  case Nil
  then show ?case by simp
next
  case (Cons y ys)
  show ?case
  proof (cases n)
    case 0
    then show ?thesis by simp
  next
    case (Suc m)
    with Cons.prems have "ys ! m \<in> set ys" "y \<notin> set ys" by auto
    then have "ys ! m \<noteq> y" by auto
    with Cons Suc show ?thesis by simp
  qed
qed

lemma b64_index_char: "n < 64 \<Longrightarrow> b64_index (b64_char n) = Some n"
  by (simp add: b64_index_def b64_char_def index_of_nth distinct_alphabet length_alphabet)

lemma b64_char_not_pad: "n < 64 \<Longrightarrow> b64_char n \<noteq> CHR ''=''"
proof -
  assume "n < 64"
  then have "b64_char n \<in> set b64_alphabet"
    by (simp add: b64_char_def length_alphabet)
  moreover have "CHR ''='' \<notin> set b64_alphabet"
    by (simp add: b64_alphabet_def)
  ultimately show ?thesis by auto
qed

lemma unat_byte_lt: "unat (a :: byte) < 256"
  using unsigned_less [of a, where ?'a = nat] by simp

lemma byte_div16: "(y::nat) < 256 \<Longrightarrow> y div 16 < 16"
  by (simp add: less_mult_imp_div_less)

lemma byte_div64: "(z::nat) < 256 \<Longrightarrow> z div 64 < 4"
  by (simp add: less_mult_imp_div_less)

lemma byte_div4: "(z::nat) < 256 \<Longrightarrow> z div 4 < 64"
  by (simp add: less_mult_imp_div_less)

lemma sextet2_lt: "(y::nat) < 256 \<Longrightarrow> x mod 4 * 16 + y div 16 < 64"
proof -
  assume "y < 256"
  then have "y div 16 < 16" by (rule byte_div16)
  moreover have "x mod 4 < 4" by simp
  ultimately show ?thesis by linarith
qed

lemma sextet3_lt: "(z::nat) < 256 \<Longrightarrow> y mod 16 * 4 + z div 64 < 64"
proof -
  assume "z < 256"
  then have "z div 64 < 4" by (rule byte_div64)
  moreover have "y mod 16 < 16" by simp
  ultimately show ?thesis by linarith
qed

lemma byte1_recovered: "(y::nat) < 256 \<Longrightarrow> x div 4 * 4 + (x mod 4 * 16 + y div 16) div 16 = x"
  using byte_div16 [of y] by simp

lemma byte2_recovered: "(y::nat) < 256 \<Longrightarrow> z < 256 \<Longrightarrow> (x mod 4 * 16 + y div 16) mod 16 * 16 + (y mod 16 * 4 + z div 64) div 4 = y"
  using byte_div16 [of y] byte_div64 [of z] by simp

lemma byte3_recovered: "(z::nat) < 256 \<Longrightarrow> (y mod 16 * 4 + z div 64) mod 4 * 64 + z mod 64 = z"
  using byte_div64 [of z] by simp

lemma byte1_recovered_padded: "x div 4 * 4 + (x mod 4 * 16) div 16 = (x::nat)"
  by simp

lemma byte2_recovered_padded: "(y::nat) < 256 \<Longrightarrow> (x mod 4 * 16 + y div 16) mod 16 * 16 + (y mod 16 * 4) div 4 = y"
  using byte_div16 [of y] by simp

lemma sextet2_padded_lt: "(x::nat) mod 4 * 16 < 64"
proof -
  have "x mod 4 < 4" by simp
  then show ?thesis by linarith
qed

lemma sextet3_padded_lt: "(x::nat) mod 16 * 4 < 64"
proof -
  have "x mod 16 < 16" by simp
  then show ?thesis by linarith
qed

lemma byte_of_unat: "of_nat (unat a) = (a :: byte)"
  by simp

lemma quad3:
  "b64decode_quad (b64_char (unat a div 4)) (b64_char (unat a mod 4 * 16 + unat b div 16))
      (b64_char (unat b mod 16 * 4 + unat c div 64)) (b64_char (unat c mod 64)) = Some [a, b, c]"
  for a b c :: byte
proof -
  have la: "unat a < 256" and lb: "unat b < 256" and lc: "unat c < 256"
    by (rule unat_byte_lt)+
  have i1: "unat a div 4 < 64" by (rule byte_div4 [OF la])
  have i2: "unat a mod 4 * 16 + unat b div 16 < 64" by (rule sextet2_lt [OF lb])
  have i3: "unat b mod 16 * 4 + unat c div 64 < 64" by (rule sextet3_lt [OF lc])
  have i4: "unat c mod 64 < 64" by simp
  show ?thesis
    unfolding b64decode_quad_def
    by (simp only: b64_index_char [OF i1] b64_index_char [OF i2] b64_index_char [OF i3]
        b64_index_char [OF i4] b64_char_not_pad [OF i3] b64_char_not_pad [OF i4]
        byte1_recovered [OF lb] byte2_recovered [OF lb lc] byte3_recovered [OF lc]
        byte_of_unat prod.case option.case if_False simp_thms)
qed

lemma quad2:
  "b64decode_quad (b64_char (unat a div 4)) (b64_char (unat a mod 4 * 16 + unat b div 16))
      (b64_char (unat b mod 16 * 4)) CHR ''='' = Some [a, b]"
  for a b :: byte
proof -
  have la: "unat a < 256" and lb: "unat b < 256"
    by (rule unat_byte_lt)+
  have i1: "unat a div 4 < 64" by (rule byte_div4 [OF la])
  have i2: "unat a mod 4 * 16 + unat b div 16 < 64" by (rule sextet2_lt [OF lb])
  have i3: "unat b mod 16 * 4 < 64" by (rule sextet3_padded_lt)
  show ?thesis
    unfolding b64decode_quad_def
    by (simp only: b64_index_char [OF i1] b64_index_char [OF i2] b64_index_char [OF i3]
        b64_char_not_pad [OF i3] byte1_recovered [OF lb] byte2_recovered_padded [OF lb]
        byte_of_unat prod.case option.case if_False if_True simp_thms)
qed

lemma quad1:
  "b64decode_quad (b64_char (unat a div 4)) (b64_char (unat a mod 4 * 16)) CHR ''='' CHR ''='' = Some [a]"
  for a :: byte
proof -
  have la: "unat a < 256" by (rule unat_byte_lt)
  have i1: "unat a div 4 < 64" by (rule byte_div4 [OF la])
  have i2: "unat a mod 4 * 16 < 64" by (rule sextet2_padded_lt)
  show ?thesis
    unfolding b64decode_quad_def
    by (simp only: b64_index_char [OF i1] b64_index_char [OF i2] byte1_recovered_padded
        byte_of_unat prod.case option.case if_True simp_thms)
qed

lemma b64decode_b64encode: "b64decode (b64encode bs) = Some bs"
proof (induction bs rule: b64encode.induct)
  case 1
  show ?case by simp
next
  case (2 a)
  show ?case by (simp add: quad1)
next
  case (3 a b)
  show ?case by (simp add: quad2)
next
  case (4 a b c rest)
  show ?case
  proof (cases "b64encode rest = []")
    case True
    with 4 have "rest = []" by simp
    with True show ?thesis by (simp add: quad3)
  next
    case False
    with 4 show ?thesis by (simp add: quad3)
  qed
qed

section \<open>JSON round trip\<close>

lemma of_char_lt_256: "(of_char c :: nat) < 256"
proof -
  have "(of_char c :: nat) mod 256 < 256" by (rule mod_less_divisor) simp
  then show ?thesis by (simp only: of_char_mod_256)
qed

lemma distinct_hex_digits: "distinct hex_digits"
  by (simp add: hex_digits_def)

lemma hex_value_digit: "n < 16 \<Longrightarrow> hex_value (hex_digits ! n) = Some n"
proof -
  assume "n < 16"
  then have "index_of (hex_digits ! n) hex_digits = Some n"
    by (intro index_of_nth distinct_hex_digits) (simp add: hex_digits_def)
  then show ?thesis by (simp add: hex_value_def)
qed

lemma hex_value_zero: "hex_value CHR ''0'' = Some 0"
  using hex_value_digit [of 0] by (simp add: hex_digits_def)

lemma parse_string_unicode_escape:
  "parse_string ([backslash, CHR ''u'', CHR ''0'', CHR ''0'',
                  hex_digits ! (of_char c div 16), hex_digits ! (of_char c mod 16)] @ rest) =
     cons_char c (parse_string rest)"
proof -
  have q: "(of_char c :: nat) div 16 < 16"
    using of_char_lt_256 [of c] by (simp add: less_mult_imp_div_less)
  have r: "(of_char c :: nat) mod 16 < 16" by simp
  have n: "((0 * 16 + 0) * 16 + (of_char c :: nat) div 16) * 16 + of_char c mod 16 = of_char c"
    by simp
  have b: "backslash \<noteq> dquote" by (simp add: backslash_def dquote_def)
  show ?thesis
    by (simp only: append_Cons append_Nil parse_string.simps b if_False if_True list.case
        hex_value_zero hex_value_digit [OF q] hex_value_digit [OF r] prod.case option.case n
        of_char_lt_256 char_of_char simp_thms)
qed

lemma parse_string_simple_escape:
  assumes "unescape e = Some c" and "e \<noteq> CHR ''u''"
  shows "parse_string ([backslash, e] @ rest) = cons_char c (parse_string rest)"
proof -
  have b: "backslash \<noteq> dquote" by (simp add: backslash_def dquote_def)
  show ?thesis
    by (simp only: append_Cons append_Nil parse_string.simps b if_False if_True list.case
        assms option.case simp_thms)
qed

lemma parse_string_plain:
  assumes "c \<noteq> dquote" and "c \<noteq> backslash" and "32 \<le> (of_char c :: nat)"
  shows "parse_string (c # rest) = cons_char c (parse_string rest)"
  using assms by simp

lemma parse_string_escape_char:
  "parse_string (escape_char c @ rest) = cons_char c (parse_string rest)"
proof -
  have u: "unescape dquote = Some dquote" "unescape backslash = Some backslash"
    "unescape CHR ''n'' = Some (CHR 0x0A)" "unescape CHR ''r'' = Some (CHR 0x0D)"
    "unescape CHR ''t'' = Some (CHR 0x09)" "unescape CHR ''b'' = Some (CHR 0x08)"
    "unescape CHR ''f'' = Some (CHR 0x0C)"
    by (simp_all add: unescape_def dquote_def backslash_def)
  have nu: "dquote \<noteq> CHR ''u''" "backslash \<noteq> CHR ''u''"
    by (simp_all add: dquote_def backslash_def)
  consider (q) "c = dquote" | (b) "c = backslash" | (n) "c = CHR 0x0A" | (r) "c = CHR 0x0D"
    | (t) "c = CHR 0x09" | (bs) "c = CHR 0x08" | (f) "c = CHR 0x0C"
    | (plain) "c \<noteq> dquote" "c \<noteq> backslash" "c \<noteq> CHR 0x0A" "c \<noteq> CHR 0x0D"
        "c \<noteq> CHR 0x09" "c \<noteq> CHR 0x08" "c \<noteq> CHR 0x0C"
        "32 \<le> (of_char c :: nat) \<and> (of_char c :: nat) \<le> 126"
    | (other) "c \<noteq> dquote" "c \<noteq> backslash" "c \<noteq> CHR 0x0A" "c \<noteq> CHR 0x0D"
        "c \<noteq> CHR 0x09" "c \<noteq> CHR 0x08" "c \<noteq> CHR 0x0C"
        "\<not> (32 \<le> (of_char c :: nat) \<and> (of_char c :: nat) \<le> 126)"
    by blast
  then show ?thesis
  proof cases
    case q
    have "escape_char c = [backslash, dquote]" by (simp add: escape_char_def q)
    with parse_string_simple_escape [OF u(1) nu(1)] q show ?thesis by simp
  next
    case b
    have "escape_char c = [backslash, backslash]"
      by (simp add: escape_char_def b backslash_def dquote_def)
    with parse_string_simple_escape [OF u(2) nu(2)] b show ?thesis by simp
  next
    case n
    have "escape_char c = [backslash, CHR ''n'']"
      by (simp add: escape_char_def n backslash_def dquote_def)
    with parse_string_simple_escape [OF u(3)] n show ?thesis by simp
  next
    case r
    have "escape_char c = [backslash, CHR ''r'']"
      by (simp add: escape_char_def r backslash_def dquote_def)
    with parse_string_simple_escape [OF u(4)] r show ?thesis by simp
  next
    case t
    have "escape_char c = [backslash, CHR ''t'']"
      by (simp add: escape_char_def t backslash_def dquote_def)
    with parse_string_simple_escape [OF u(5)] t show ?thesis by simp
  next
    case bs
    have "escape_char c = [backslash, CHR ''b'']"
      by (simp add: escape_char_def bs backslash_def dquote_def)
    with parse_string_simple_escape [OF u(6)] bs show ?thesis by simp
  next
    case f
    have "escape_char c = [backslash, CHR ''f'']"
      by (simp add: escape_char_def f backslash_def dquote_def)
    with parse_string_simple_escape [OF u(7)] f show ?thesis by simp
  next
    case plain
    then have "escape_char c = [c]" by (simp add: escape_char_def)
    with parse_string_plain [of c rest] plain show ?thesis by simp
  next
    case other
    then have "escape_char c = [backslash, CHR ''u'', CHR ''0'', CHR ''0'',
                  hex_digits ! (of_char c div 16), hex_digits ! (of_char c mod 16)]"
      by (simp add: escape_char_def)
    with parse_string_unicode_escape [of c rest] show ?thesis by simp
  qed
qed

lemma parse_string_escaped:
  "parse_string (concat (map escape_char s) @ dquote # rest) = Some (s, rest)"
proof (induction s)
  case Nil
  show ?case by simp
next
  case (Cons c s)
  have "parse_string (concat (map escape_char (c # s)) @ dquote # rest) =
      parse_string (escape_char c @ (concat (map escape_char s) @ dquote # rest))"
    by simp
  also have "\<dots> = cons_char c (parse_string (concat (map escape_char s) @ dquote # rest))"
    by (rule parse_string_escape_char)
  also have "\<dots> = Some (c # s, rest)"
    by (simp add: Cons.IH cons_char_def)
  finally show ?case .
qed

lemma parse_value_string:
  "parse_value (json_string s @ rest) = Some (PString s, rest)"
  by (simp add: parse_value_def json_string_def parse_string_escaped)

lemma parse_value_literals:
  "parse_value (''true'' @ rest) = Some (PBool True, rest)"
  "parse_value (''false'' @ rest) = Some (PBool False, rest)"
  "parse_value (''null'' @ rest) = Some (PNull, rest)"
  by (simp_all add: parse_value_def dquote_def)

lemma parse_value_number:
  assumes "tok \<noteq> []" and "set tok \<subseteq> set number_chars"
    and "rest = [] \<or> hd rest \<notin> set number_chars"
  shows "parse_value (tok @ rest) = Some (PNumber tok, rest)"
proof -
  obtain c cs where tok: "tok = c # cs" using assms(1) by (cases tok) auto
  with assms(2) have c: "c \<in> set number_chars" by simp
  then have nq: "c \<noteq> dquote" and nt: "c \<noteq> CHR ''t''" and nf: "c \<noteq> CHR ''f''"
    and nn: "c \<noteq> CHR ''n''"
    by (auto simp: number_chars_def dquote_def)
  have tw: "takeWhile (\<lambda>c. c \<in> set number_chars) (tok @ rest) = tok"
  proof -
    have "takeWhile (\<lambda>c. c \<in> set number_chars) rest = []"
      using assms(3) by (cases rest) auto
    moreover have "\<forall>x\<in>set tok. x \<in> set number_chars" using assms(2) by auto
    ultimately show ?thesis by simp
  qed
  have dw: "dropWhile (\<lambda>c. c \<in> set number_chars) (tok @ rest) = rest"
  proof -
    have "dropWhile (\<lambda>c. c \<in> set number_chars) rest = rest"
      using assms(3) by (cases rest) auto
    moreover have "\<forall>x\<in>set tok. x \<in> set number_chars" using assms(2) by auto
    ultimately show ?thesis by simp
  qed
  have "parse_value ((c # cs) @ rest) =
      Some (PNumber (takeWhile (\<lambda>c. c \<in> set number_chars) ((c # cs) @ rest)),
            dropWhile (\<lambda>c. c \<in> set number_chars) ((c # cs) @ rest))"
    using nq nt nf nn c by (simp add: parse_value_def)
  with tok tw dw show ?thesis by simp
qed

lemma parse_value_json_value:
  assumes "float_repr_ok float_repr" and "rest = [] \<or> hd rest \<notin> set number_chars"
  shows "parse_value (json_value float_repr v @ rest) = Some (parsed_of float_repr v, rest)"
proof (cases v)
  case (JString s)
  then show ?thesis by (simp add: json_value_def parsed_of_def parse_value_string)
next
  case (JNumber x)
  have "float_repr x \<noteq> []" "set (float_repr x) \<subseteq> set number_chars"
    using assms(1) by (simp_all add: float_repr_ok_def)
  from parse_value_number [OF this assms(2)] JNumber show ?thesis
    by (simp add: json_value_def parsed_of_def)
next
  case (JBool b)
  then show ?thesis
    using parse_value_literals(1,2) [of rest] by (cases b) (simp_all add: json_value_def parsed_of_def)
next
  case JNull
  then show ?thesis
    using parse_value_literals(3) [of rest] by (simp add: json_value_def parsed_of_def)
qed

lemma json_value_starts:
  assumes "float_repr_ok float_repr"
  shows "\<exists>c cs. json_value float_repr v = c # cs \<and> \<not> is_ws c"
proof (cases v)
  case (JString s)
  then show ?thesis by (simp add: json_value_def json_string_def is_ws_def dquote_def)
next
  case (JNumber x)
  have ne: "float_repr x \<noteq> []" and sub: "set (float_repr x) \<subseteq> set number_chars"
    using assms by (simp_all add: float_repr_ok_def)
  then obtain c cs where e: "float_repr x = c # cs" by (cases "float_repr x") auto
  with sub have "c \<in> set number_chars" by simp
  then have "\<not> is_ws c" by (auto simp: number_chars_def is_ws_def)
  with e JNumber show ?thesis by (simp add: json_value_def)
next
  case (JBool b)
  then show ?thesis by (cases b) (simp_all add: json_value_def is_ws_def)
next
  case JNull
  then show ?thesis by (simp add: json_value_def is_ws_def)
qed

lemma parse_member_json_item:
  assumes "float_repr_ok float_repr" and "rest = [] \<or> hd rest \<notin> set number_chars"
  shows "parse_member (json_item float_repr (k, v) @ rest) =
           Some ((k, parsed_of float_repr v), skip_ws rest)"
proof -
  obtain c cs where val: "json_value float_repr v = c # cs" and nws: "\<not> is_ws c"
    using json_value_starts [OF assms(1)] by blast
  have item: "json_item float_repr (k, v) @ rest =
      dquote # (concat (map escape_char k) @ dquote # (CHR 0x3A # CHR '' '' # (json_value float_repr v @ rest)))"
    by (simp add: json_item_def json_string_def)
  have sk1: "skip_ws (CHR 0x3A # CHR '' '' # (json_value float_repr v @ rest)) =
      CHR 0x3A # CHR '' '' # (json_value float_repr v @ rest)"
    by (simp add: skip_ws_def is_ws_def)
  have sk2: "skip_ws (CHR '' '' # (json_value float_repr v @ rest)) = json_value float_repr v @ rest"
    using nws by (simp add: skip_ws_def is_ws_def val)
  show ?thesis
    unfolding item parse_member_def
    by (simp only: list.case simp_thms if_False parse_string_escaped option.case prod.case sk1 sk2
        parse_value_json_value [OF assms])
qed


lemma join_items_Cons:
  "join_items (x # xs) = x @ (if xs = [] then [] else '', '' @ join_items xs)"
  by (cases xs) simp_all

lemma json_item_starts: "\<exists>cs. json_item float_repr kv = dquote # cs"
  by (simp add: json_item_def json_string_def)

lemma join_items_starts:
  "d \<noteq> [] \<Longrightarrow> \<exists>cs. join_items (map (json_item float_repr) d) = dquote # cs"
proof (cases d)
  case Nil
  assume "d \<noteq> []"
  with Nil show ?thesis by simp
next
  case (Cons kv ds)
  obtain cs where "json_item float_repr kv = dquote # cs"
    using json_item_starts by blast
  with Cons show ?thesis by (simp add: join_items_Cons)
qed

lemma length_join_items:
  "length d \<le> length (join_items (map (json_item float_repr) d))"
proof (induction d)
  case Nil
  show ?case by simp
next
  case (Cons kv d)
  obtain cs where "json_item float_repr kv = dquote # cs"
    using json_item_starts by blast
  with Cons show ?case by (simp add: join_items_Cons)
qed

lemma parse_members_items:
  assumes "float_repr_ok float_repr"
  shows "d \<noteq> [] \<Longrightarrow> length d \<le> n \<Longrightarrow>
         parse_members n (join_items (map (json_item float_repr) d) @ CHR 0x7D # rest) =
           Some (map (\<lambda>kv. (fst kv, parsed_of float_repr (snd kv))) d, rest)"
proof (induction d arbitrary: n)
  case Nil
  then show ?case by simp
next
  case (Cons kv d)
  obtain k v where kv: "kv = (k, v)" by (cases kv)
  obtain m where n: "n = Suc m" using Cons.prems(2) by (cases n) auto
  show ?case
  proof (cases "d = []")
    case True
    have "parse_member (json_item float_repr (k, v) @ CHR 0x7D # rest) =
        Some ((k, parsed_of float_repr v), skip_ws (CHR 0x7D # rest))"
      by (rule parse_member_json_item [OF assms]) (simp add: number_chars_def)
    then have "parse_member (json_item float_repr (k, v) @ CHR 0x7D # rest) =
        Some ((k, parsed_of float_repr v), CHR 0x7D # rest)"
      by (simp add: skip_ws_def is_ws_def)
    with True kv n show ?thesis by simp
  next
    case False
    let ?J = "join_items (map (json_item float_repr) d)"
    obtain cs where j: "?J = dquote # cs"
      using join_items_starts [OF False] by blast
    have "parse_member (json_item float_repr (k, v) @ (CHR 0x2C # CHR '' '' # ?J @ CHR 0x7D # rest)) =
        Some ((k, parsed_of float_repr v), skip_ws (CHR 0x2C # CHR '' '' # ?J @ CHR 0x7D # rest))"
      by (rule parse_member_json_item [OF assms]) (simp add: number_chars_def)
    then have pm: "parse_member (json_item float_repr (k, v) @ (CHR 0x2C # CHR '' '' # ?J @ CHR 0x7D # rest)) =
        Some ((k, parsed_of float_repr v), CHR 0x2C # CHR '' '' # ?J @ CHR 0x7D # rest)"
      by (simp add: skip_ws_def is_ws_def)
    have sk: "skip_ws (CHR '' '' # ?J @ CHR 0x7D # rest) = ?J @ CHR 0x7D # rest"
      by (simp add: skip_ws_def is_ws_def j dquote_def)
    have ih: "parse_members m (?J @ CHR 0x7D # rest) =
        Some (map (\<lambda>kv. (fst kv, parsed_of float_repr (snd kv))) d, rest)"
      using Cons.IH [OF False, of m] Cons.prems(2) n by simp
    have shape: "join_items (map (json_item float_repr) (kv # d)) @ CHR 0x7D # rest =
        json_item float_repr (k, v) @ (CHR 0x2C # CHR '' '' # ?J @ CHR 0x7D # rest)"
      using False kv by (simp add: join_items_Cons)
    show ?thesis
      unfolding shape n
      by (simp add: pm sk ih kv)
  qed
qed

lemma json_loads_json_dumps:
  assumes "float_repr_ok float_repr"
  shows "json_loads (json_dumps float_repr d) =
           Some (map (\<lambda>kv. (fst kv, parsed_of float_repr (snd kv))) d)"
proof (cases "d = []")
  case True
  then show ?thesis
    by (simp add: json_loads_def json_dumps_def skip_ws_def is_ws_def)
next
  case False
  let ?J = "join_items (map (json_item float_repr) d)"
  obtain cs where j: "?J = dquote # cs"
    using join_items_starts [OF False] by blast
  have shape: "json_dumps float_repr d = CHR 0x7B # (?J @ [CHR 0x7D])"
    by (simp add: json_dumps_def)
  have sk0: "skip_ws (CHR 0x7B # (?J @ [CHR 0x7D])) = CHR 0x7B # (?J @ [CHR 0x7D])"
    by (simp add: skip_ws_def is_ws_def)
  have sk1: "skip_ws (?J @ [CHR 0x7D]) = dquote # (cs @ [CHR 0x7D])"
    by (simp add: skip_ws_def is_ws_def j dquote_def)
  have fuel: "length d \<le> length (?J @ [CHR 0x7D])"
    using length_join_items [of d float_repr] by simp
  have pm: "parse_members (length (?J @ [CHR 0x7D])) (dquote # (cs @ [CHR 0x7D])) =
      Some (map (\<lambda>kv. (fst kv, parsed_of float_repr (snd kv))) d, [])"
    using parse_members_items [OF assms False fuel, of "[]"] j by simp
  have nb: "dquote \<noteq> CHR 0x7D" by (simp add: dquote_def)
  have sk2: "skip_ws [] = []" by (simp add: skip_ws_def)
  show ?thesis
    unfolding shape json_loads_def
    by (simp only: sk0 sk1 sk2 list.case simp_thms if_False if_True nb pm option.case prod.case)
qed

section \<open>Movement message round trip\<close>

declare decimal.simps [simp del]

lemma decimal_chars: "decimal n \<noteq> [] \<and> set (decimal n) \<subseteq> set number_chars"
proof (induction n rule: decimal.induct)
  case (1 n)
  have digit: "''0123456789'' ! d \<in> set number_chars" if "d < 10" for d
  proof -
    from that have "d \<in> {0, 1, 2, 3, 4, 5, 6, 7, 8, 9}" by auto
    then show ?thesis by (auto simp: number_chars_def)
  qed
  show ?case
  proof (cases "n < 10")
    case True
    then show ?thesis
      using digit [of n] by (subst (1 2) decimal.simps) simp
  next
    case False
    have "n mod 10 < 10" by simp
    with False 1 digit [of "n mod 10"] show ?thesis
      by (subst (1 2) decimal.simps) simp
  qed
qed

lemma example_float_repr_ok: "float_repr_ok example_float_repr"
  unfolding float_repr_ok_def example_float_repr_def
  using decimal_chars by (auto simp: number_chars_def)

text \<open>
  Claim C9. The text that \<^verbatim>\<open>publish_movement\<close> publishes for a call with an image,
  parsed as JSON and with its item \<open>face_image\<close> decoded from base64, gives back the
  status string, the target name, the locked flag and, byte for byte, the bytes that the
  image encoder produced. The float rendering only has to write JSON numbers.
\<close>

theorem movement_message_round_trip:
  assumes "float_repr_ok float_repr" and "call_face_image c = Some img"
  shows "decode_movement (snd (publish_movement float_repr imencode c now)) =
           Some (status_str (call_status c), call_target c, call_locked c, imencode img)"
proof -
  let ?d = "map (\<lambda>kv. (fst kv, parsed_of float_repr (snd kv))) (movement_payload imencode c now)"
  have loads: "json_loads (json_dumps float_repr (movement_payload imencode c now)) = Some ?d"
    by (rule json_loads_json_dumps [OF assms(1)])
  have st: "get_string ?d ''status'' = Some (status_str (call_status c))"
    by (simp add: get_string_def movement_payload_def parsed_of_def)
  have tg: "get_string_or_null ?d ''target'' = Some (call_target c)"
    by (cases "call_target c") (simp_all add: get_string_or_null_def movement_payload_def parsed_of_def)
  have lk: "get_bool ?d ''locked'' = Some (call_locked c)"
    by (simp add: get_bool_def movement_payload_def parsed_of_def)
  have im: "get_string ?d ''face_image'' = Some (b64encode (imencode img))"
    using assms(2) by (simp add: get_string_def movement_payload_def parsed_of_def)
  show ?thesis
    unfolding decode_movement_def publish_movement_def snd_conv
    by (simp only: loads st tg lk im b64decode_b64encode option.case)
qed

theorem movement_message_round_trip_witness:
  "float_repr_ok example_float_repr \<and>
   call_face_image example_call = Some (take_crop 480 640 left_face) \<and>
   decode_movement (snd (publish_movement example_float_repr (\<lambda>img. [0xFF, 0xD8, 0xFF, 0xE0])
      example_call 1700000000)) =
     Some (''MOVE_LEFT'', Some ''andrew'', True, [0xFF, 0xD8, 0xFF, 0xE0])"
proof -
  have i: "call_face_image example_call = Some (take_crop 480 640 left_face)"
    by (simp add: example_call_def)
  from movement_message_round_trip [OF example_float_repr_ok i,
      of "\<lambda>img. [0xFF, 0xD8, 0xFF, 0xE0]" 1700000000]
  have "decode_movement (snd (publish_movement example_float_repr (\<lambda>img. [0xFF, 0xD8, 0xFF, 0xE0])
      example_call 1700000000)) =
     Some (''MOVE_LEFT'', Some ''andrew'', True, [0xFF, 0xD8, 0xFF, 0xE0])"
    by (simp add: example_call_def)
  with example_float_repr_ok i show ?thesis by simp
qed

end
